theory Spec2Isabelle
  imports Complex_Main "HOL-Library.Word" "HOL-Library.Sublist"
begin

section \<open>JavaScript strings\<close>

text \<open>
  A JavaScript string is a sequence of UTF-16 code units: \<open>length\<close>, \<open>slice\<close>, \<open>split\<close>,
  \<open>trim\<close> and the regular expressions of \<^verbatim>\<open>ai-royal.js\<close> (none has the \<open>u\<close> flag) all
  count and compare code units. A string literal of the source is written \<open>js ''...''\<close>;
  every literal of the source is ASCII.
\<close>

type_synonym jschar = "16 word"
type_synonym jsstring = "jschar list"

definition jc :: "char \<Rightarrow> jschar" where
  "jc c = of_nat (of_char c)"

definition js :: "string \<Rightarrow> jsstring" where
  "js s = map jc s"

text \<open>The line feed, \<^verbatim>\<open>'\n'\<close>.\<close>

definition LF :: jschar where
  "LF = 0x0A"

text \<open>
  \<open>WhiteSpace\<close> and \<open>LineTerminator\<close> of ECMAScript: what \<open>String.prototype.trim\<close> strips
  and what \<open>\s\<close> matches.
\<close>

definition isSpace :: "jschar \<Rightarrow> bool" where
  "isSpace c \<longleftrightarrow>
     c = 0x09 \<or> c = 0x0A \<or> c = 0x0B \<or> c = 0x0C \<or> c = 0x0D \<or> c = 0x20 \<or> c = 0xA0 \<or>
     c = 0x1680 \<or> (0x2000 \<le> c \<and> c \<le> 0x200A) \<or> c = 0x2028 \<or> c = 0x2029 \<or>
     c = 0x202F \<or> c = 0x205F \<or> c = 0x3000 \<or> c = 0xFEFF"

definition trim :: "jsstring \<Rightarrow> jsstring" where
  "trim s = rev (dropWhile isSpace (rev (dropWhile isSpace s)))"

section \<open>Values that may be absent\<close>

text \<open>
  A value that is a string or \<^verbatim>\<open>null\<close>/\<^verbatim>\<open>undefined\<close> is a \<open>jsstring option\<close>. Such a value is
  truthy when it is a non-empty string.
\<close>

definition truthy :: "jsstring option \<Rightarrow> bool" where
  "truthy t = (case t of None \<Rightarrow> False | Some s \<Rightarrow> s \<noteq> [])"

definition js_or :: "jsstring option \<Rightarrow> jsstring option \<Rightarrow> jsstring option" where  \<comment> \<open>\<^verbatim>\<open>a || b\<close>\<close>
  "js_or a b = (if truthy a then a else b)"

definition nullish :: "jsstring option \<Rightarrow> jsstring option \<Rightarrow> jsstring option" where  \<comment> \<open>\<^verbatim>\<open>a ?? b\<close>\<close>
  "nullish a b = (case a of None \<Rightarrow> b | Some s \<Rightarrow> Some s)"

text \<open>
  \<^verbatim>\<open>(a || '')\<close> as a string: \<^verbatim>\<open>null\<close>, \<^verbatim>\<open>undefined\<close> and \<^verbatim>\<open>''\<close> all give \<^verbatim>\<open>''\<close>. It is
  also the string that a value known to be one holds.
\<close>

definition orEmpty :: "jsstring option \<Rightarrow> jsstring" where
  "orEmpty t = (case t of None \<Rightarrow> [] | Some s \<Rightarrow> s)"

section \<open>Conversation store\<close>

text \<open>
  \<^verbatim>\<open>conversation.messages\<close> holds objects \<^verbatim>\<open>{ role, content }\<close>. \<open>content\<close> is \<open>None\<close> for
  \<^verbatim>\<open>null\<close>/\<^verbatim>\<open>undefined\<close>, which \<^verbatim>\<open>approxChars\<close> guards against with \<^verbatim>\<open>m.content || ''\<close>.
\<close>

datatype role = System | User | Assistant

record message =
  role :: role
  content :: "jsstring option"

record conversation =
  messages :: "message list"

text \<open>\<^verbatim>\<open>approxChars\<close>, lines 63-67: the sum of the content lengths.\<close>

fun approxChars_from :: "nat \<Rightarrow> message list \<Rightarrow> nat" where
  "approxChars_from n [] = n"
| "approxChars_from n (m # ms) = approxChars_from (n + length (orEmpty (content m))) ms"

definition approxChars :: "message list \<Rightarrow> nat" where
  "approxChars ms = approxChars_from 0 ms"

text \<open>\<^verbatim>\<open>Array.prototype.shift\<close>: removes the first element; on an empty array it does nothing.\<close>

fun shift :: "'a list \<Rightarrow> 'a list" where
  "shift [] = []"
| "shift (x # xs) = xs"

text \<open>
  \<^verbatim>\<open>MAX_HISTORY_MESSAGES\<close> and \<^verbatim>\<open>MAX_HISTORY_CHARS\<close> are \<^verbatim>\<open>Number(process.env... || ...)\<close>,
  lines 32-33: any JavaScript number, \<^verbatim>\<open>NaN\<close> for a text that is no number and an infinity
  included. A finite number is taken as the real number it stands for; the loops compare it
  with a length only.
\<close>

datatype number = NaN | NegInfinity | Fin real | PosInfinity

text \<open>\<^verbatim>\<open>n > b\<close> and \<^verbatim>\<open>n <= b\<close> for a length \<open>n\<close>: both are false when \<open>b\<close> is \<^verbatim>\<open>NaN\<close>.\<close>

fun js_gt :: "nat \<Rightarrow> number \<Rightarrow> bool" where
  "js_gt n NaN = False"
| "js_gt n NegInfinity = True"
| "js_gt n (Fin b) = (real n > b)"
| "js_gt n PosInfinity = False"

fun js_le :: "nat \<Rightarrow> number \<Rightarrow> bool" where
  "js_le n NaN = False"
| "js_le n NegInfinity = False"
| "js_le n (Fin b) = (real n \<le> b)"
| "js_le n PosInfinity = True"

text \<open>
  \<^verbatim>\<open>trimHistory\<close>, lines 69-74, with the two bounds as parameters.

  The first loop, line 70, has no floor: with a bound below 0 its condition stays true on
  the empty array, where \<^verbatim>\<open>shift()\<close> changes nothing, so it never returns; not returning is
  the value \<open>None\<close>.
\<close>

partial_function (option) trimCount :: "number \<Rightarrow> message list \<Rightarrow> message list option" where
  "trimCount maxMessages ms =
     (if js_gt (length ms) maxMessages then trimCount maxMessages (shift ms) else Some ms)"

text \<open>The second loop, lines 71-73, stops at one message.\<close>

function trimChars :: "number \<Rightarrow> message list \<Rightarrow> message list" where
  "trimChars maxChars ms =
     (if js_gt (approxChars ms) maxChars \<and> length ms > 1
      then trimChars maxChars (shift ms) else ms)"
  by pat_completeness auto
termination
proof (relation "measure (\<lambda>(c, ms). length ms)")
  fix maxChars :: number and ms :: "message list"
  assume "js_gt (approxChars ms) maxChars \<and> length ms > 1"
  then show "((maxChars, shift ms), (maxChars, ms)) \<in> measure (\<lambda>(c, ms). length ms)"
    by (cases ms) simp_all
qed simp

definition trimHistory :: "number \<Rightarrow> number \<Rightarrow> conversation \<Rightarrow> conversation option" where
  "trimHistory maxMessages maxChars conversation =
     (case trimCount maxMessages (messages conversation) of
        None \<Rightarrow> None
      | Some ms \<Rightarrow> Some (conversation\<lparr>messages := trimChars maxChars ms\<rparr>))"

section \<open>Regular expressions\<close>

text \<open>
  The regular expressions of the source are sequences of the atoms below. Each quantifier
  of the source ranges over a one-character class, so \<open>Star\<close>, \<open>Lazy\<close> and \<open>Opt\<close> take a
  class or a code unit, not a sub-expression.
\<close>

datatype atom =
    Chr jschar                    \<comment> \<open>a literal code unit\<close>
  | ChrI jschar                   \<comment> \<open>an ASCII literal under the \<open>i\<close> flag\<close>
  | Opt jschar                    \<comment> \<open>\<open>c?\<close>, greedy\<close>
  | Star "jschar \<Rightarrow> bool"         \<comment> \<open>\<open>[...]*\<close>, greedy\<close>
  | Lazy "jschar \<Rightarrow> bool"         \<comment> \<open>\<open>[...]*?\<close>, lazy\<close>
  | WordB                         \<comment> \<open>\<open>\b\<close>\<close>
  | Eoi                           \<comment> \<open>\<open>$\<close> without the \<open>m\<close> flag: the end of the input\<close>

type_synonym regex = "atom list"

text \<open>
  \<open>Canonicalize\<close> of ECMAScript without the \<open>u\<close> flag maps a code unit to its upper case,
  and never maps a code unit from 128 on to one below 128; so a code unit matches an ASCII
  literal under \<open>i\<close> exactly when both agree after mapping \<open>a-z\<close> to \<open>A-Z\<close>.
\<close>

definition canon :: "jschar \<Rightarrow> jschar" where
  "canon c = (if 0x61 \<le> c \<and> c \<le> 0x7A then c - 0x20 else c)"

text \<open>\<open>IsWordChar\<close>: \<open>[A-Za-z0-9_]\<close>.\<close>

definition isWord :: "jschar \<Rightarrow> bool" where
  "isWord c \<longleftrightarrow>
     (0x30 \<le> c \<and> c \<le> 0x39) \<or> (0x41 \<le> c \<and> c \<le> 0x5A) \<or> c = 0x5F \<or> (0x61 \<le> c \<and> c \<le> 0x7A)"

definition wordBefore :: "jschar option \<Rightarrow> bool" where
  "wordBefore p = (case p of None \<Rightarrow> False | Some c \<Rightarrow> isWord c)"

definition wordAfter :: "jsstring \<Rightarrow> bool" where
  "wordAfter s = (case s of [] \<Rightarrow> False | c # cs \<Rightarrow> isWord c)"

text \<open>
  The backtracking matcher: \<open>rmatch re p s\<close> matches \<open>re\<close> at the start of \<open>s\<close>, where \<open>p\<close>
  is the code unit before \<open>s\<close> in the whole input (\<open>None\<close> at its start), and returns the
  input left after the first match in the order a backtracking engine tries them: a greedy
  quantifier takes a code unit before it tries the rest, a lazy one tries the rest first.
\<close>

fun rmatch :: "regex \<Rightarrow> jschar option \<Rightarrow> jsstring \<Rightarrow> jsstring option" where
  "rmatch [] p s = Some s"
| "rmatch (Chr a # r) p [] = None"
| "rmatch (Chr a # r) p (c # cs) = (if c = a then rmatch r (Some c) cs else None)"
| "rmatch (ChrI a # r) p [] = None"
| "rmatch (ChrI a # r) p (c # cs) = (if canon c = canon a then rmatch r (Some c) cs else None)"
| "rmatch (Opt a # r) p [] = rmatch r p []"
| "rmatch (Opt a # r) p (c # cs) =
     (if c = a
      then (case rmatch r (Some c) cs of Some t \<Rightarrow> Some t | None \<Rightarrow> rmatch r p (c # cs))
      else rmatch r p (c # cs))"
| "rmatch (Star P # r) p [] = rmatch r p []"
| "rmatch (Star P # r) p (c # cs) =
     (if P c
      then (case rmatch (Star P # r) (Some c) cs of Some t \<Rightarrow> Some t | None \<Rightarrow> rmatch r p (c # cs))
      else rmatch r p (c # cs))"
| "rmatch (Lazy P # r) p [] = rmatch r p []"
| "rmatch (Lazy P # r) p (c # cs) =
     (case rmatch r p (c # cs) of
        Some t \<Rightarrow> Some t
      | None \<Rightarrow> if P c then rmatch (Lazy P # r) (Some c) cs else None)"
| "rmatch (WordB # r) p s = (if wordBefore p \<noteq> wordAfter s then rmatch r p s else None)"
| "rmatch (Eoi # r) p s = (if s = [] then rmatch r p s else None)"

text \<open>
  \<^verbatim>\<open>s.replace(re, rep)\<close> for a \<open>re\<close> with the \<open>g\<close> flag and a replacement \<open>rep\<close> without \<open>$\<close>:
  the leftmost match is replaced and the search goes on after it; text that matches nowhere
  is copied. After an empty match the search moves one code unit on.
\<close>

function replaceAll :: "regex \<Rightarrow> jsstring \<Rightarrow> jschar option \<Rightarrow> jsstring \<Rightarrow> jsstring" where
  "replaceAll re rep p [] = (case rmatch re p [] of None \<Rightarrow> [] | Some t \<Rightarrow> rep)"
| "replaceAll re rep p (c # cs) =
     (case rmatch re p (c # cs) of
        None \<Rightarrow> c # replaceAll re rep (Some c) cs
      | Some t \<Rightarrow>
          if length t \<le> length cs
          then rep @ replaceAll re rep (Some ((c # cs) ! (length cs - length t))) t
          else rep @ c # replaceAll re rep (Some c) cs)"
  by pat_completeness auto
termination
  by (relation "measure (\<lambda>(re, rep, p, s). length s)") auto

text \<open>\<^verbatim>\<open>s.replace(re, rep)\<close> for a \<open>re\<close> without the \<open>g\<close> flag: the leftmost match only.\<close>

fun replaceFirst :: "regex \<Rightarrow> jsstring \<Rightarrow> jschar option \<Rightarrow> jsstring \<Rightarrow> jsstring" where
  "replaceFirst re rep p [] = (case rmatch re p [] of None \<Rightarrow> [] | Some t \<Rightarrow> rep)"
| "replaceFirst re rep p (c # cs) =
     (case rmatch re p (c # cs) of
        None \<Rightarrow> c # replaceFirst re rep (Some c) cs
      | Some t \<Rightarrow> rep @ t)"

text \<open>Whether \<open>re\<close> matches somewhere in the input (\<^verbatim>\<open>re.test(s)\<close>).\<close>

fun occurs :: "regex \<Rightarrow> jschar option \<Rightarrow> jsstring \<Rightarrow> bool" where
  "occurs re p [] = (rmatch re p [] \<noteq> None)"
| "occurs re p (c # cs) = (rmatch re p (c # cs) \<noteq> None \<or> occurs re (Some c) cs)"

text \<open>A literal under the \<open>i\<close> flag.\<close>

definition liti :: "string \<Rightarrow> regex" where
  "liti s = map (\<lambda>c. ChrI (jc c)) s"

section \<open>Text sanitizer\<close>

definition notGt :: "jschar \<Rightarrow> bool" where  \<comment> \<open>\<^verbatim>\<open>[^>]\<close>\<close>
  "notGt c \<longleftrightarrow> c \<noteq> jc CHR ''>''"

definition anyChar :: "jschar \<Rightarrow> bool" where  \<comment> \<open>\<^verbatim>\<open>[\s\S]\<close>\<close>
  "anyChar c \<longleftrightarrow> isSpace c \<or> \<not> isSpace c"

definition isLF :: "jschar \<Rightarrow> bool" where
  "isLF c \<longleftrightarrow> c = LF"

text \<open>\<^verbatim>\<open>/<think\b[^>]*>[\s\S]*?<\/think>/gi\<close>, line 83.\<close>

definition re_think_block :: regex where
  "re_think_block =
     liti ''<think'' @ [WordB, Star notGt, ChrI (jc CHR ''>''), Lazy anyChar] @ liti ''</think>''"

text \<open>\<^verbatim>\<open>/<\/?think\b[^>]*>/gi\<close>, line 84.\<close>

definition re_think_tag :: regex where
  "re_think_tag =
     [ChrI (jc CHR ''<''), Opt (jc CHR ''/'')] @ liti ''think'' @
     [WordB, Star notGt, ChrI (jc CHR ''>'')]"

text \<open>\<^verbatim>\<open>/<\s*reasoning\b[^>]*>[\s\S]*?<\/\s*reasoning\s*>/gi\<close>, line 86.\<close>

definition re_reasoning_block :: regex where
  "re_reasoning_block =
     [ChrI (jc CHR ''<''), Star isSpace] @ liti ''reasoning'' @
     [WordB, Star notGt, ChrI (jc CHR ''>''), Lazy anyChar] @
     liti ''</'' @ [Star isSpace] @ liti ''reasoning'' @ [Star isSpace, ChrI (jc CHR ''>'')]"

text \<open>\<^verbatim>\<open>/<\/?\s*reasoning\b[^>]*>/gi\<close>, line 87.\<close>

definition re_reasoning_tag :: regex where
  "re_reasoning_tag =
     [ChrI (jc CHR ''<''), Opt (jc CHR ''/''), Star isSpace] @ liti ''reasoning'' @
     [WordB, Star notGt, ChrI (jc CHR ''>'')]"

text \<open>\<^verbatim>\<open>/\n{3,}/g\<close>, line 88: three line feeds, then as many as follow.\<close>

definition re_newlines :: regex where
  "re_newlines = [Chr LF, Chr LF, Chr LF, Star isLF]"

text \<open>
  \<^verbatim>\<open>stripThinkBlocks\<close>, lines 80-91. \<open>None\<close> is \<^verbatim>\<open>null\<close>/\<^verbatim>\<open>undefined\<close>; these and the empty
  string are falsy and returned as they are (line 81).
\<close>

definition stripThinkBlocks :: "jsstring option \<Rightarrow> jsstring option" where
  "stripThinkBlocks text =
     (case text of
        None \<Rightarrow> None
      | Some s \<Rightarrow>
          if s = [] then Some s
          else
            let out = replaceAll re_think_block [] None s;
                out = replaceAll re_think_tag [] None out;
                out = replaceAll re_reasoning_block [] None out;
                out = replaceAll re_reasoning_tag [] None out;
                out = trim (replaceAll re_newlines [LF, LF] None out)
            in Some out)"

section \<open>Endpoint URL\<close>

text \<open>The environment variables read on lines 23-25.\<close>

record env =
  env_OPENAI_BASE_URL :: "jsstring option"
  env_NOVITA_BASE_URL :: "jsstring option"
  env_OPENAI_API_URL :: "jsstring option"

text \<open>\<^verbatim>\<open>/\/+$/\<close>, lines 24 and 95.\<close>

definition re_trailing_slashes :: regex where
  "re_trailing_slashes = [Chr (jc CHR ''/''), Star (\<lambda>c. c = jc CHR ''/''), Eoi]"

definition OPENAI_BASE_URL :: "env \<Rightarrow> jsstring" where
  "OPENAI_BASE_URL e =
     replaceFirst re_trailing_slashes [] None
       (orEmpty (js_or (env_OPENAI_BASE_URL e)
                  (js_or (env_NOVITA_BASE_URL e) (Some (js ''https://api.openai.com/v1'')))))"

definition OPENAI_API_URL :: "env \<Rightarrow> jsstring option" where
  "OPENAI_API_URL e = env_OPENAI_API_URL e"

definition endsWith :: "jsstring \<Rightarrow> jsstring \<Rightarrow> bool" where
  "endsWith s t \<longleftrightarrow> length t \<le> length s \<and> drop (length s - length t) s = t"

text \<open>\<^verbatim>\<open>buildChatCompletionsUrl\<close>, lines 93-98.\<close>

definition buildChatCompletionsUrl :: "env \<Rightarrow> jsstring" where
  "buildChatCompletionsUrl e =
     (if truthy (OPENAI_API_URL e) then trim (orEmpty (OPENAI_API_URL e))
      else
        let clean = replaceFirst re_trailing_slashes [] None (OPENAI_BASE_URL e)
        in if endsWith clean (js ''/v1'') then clean @ js ''/chat/completions''
           else clean @ js ''/v1/chat/completions'')"

section \<open>Completion response\<close>

text \<open>
  The parsed body of a successful response, as far as lines 161-170 read it:
  \<^verbatim>\<open>{ choices: [ { message: { content, reasoning_content }, text } ] }\<close>, every part of
  which may be absent.
\<close>

record response_message =
  msg_content :: "jsstring option"
  msg_reasoning_content :: "jsstring option"

record choice =
  choice_message :: "response_message option"
  choice_text :: "jsstring option"

record completion =
  choices :: "choice list option"

text \<open>\<^verbatim>\<open>data?.choices?.[0]\<close>\<close>

definition firstChoice :: "completion \<Rightarrow> choice option" where
  "firstChoice data =
     (case choices data of None \<Rightarrow> None | Some [] \<Rightarrow> None | Some (c # cs) \<Rightarrow> Some c)"

text \<open>\<^verbatim>\<open>data?.choices?.[0]?.message || {}\<close>, line 162\<close>

definition firstMessage :: "completion \<Rightarrow> response_message" where
  "firstMessage data =
     (case firstChoice data of
        None \<Rightarrow> \<lparr>msg_content = None, msg_reasoning_content = None\<rparr>
      | Some c \<Rightarrow>
          (case choice_message c of
             None \<Rightarrow> \<lparr>msg_content = None, msg_reasoning_content = None\<rparr>
           | Some m \<Rightarrow> m))"

text \<open>\<^verbatim>\<open>msg.content ?? data?.choices?.[0]?.text ?? ''\<close>, line 163\<close>

definition rawContent :: "completion \<Rightarrow> jsstring option" where
  "rawContent data =
     nullish (msg_content (firstMessage data))
       (nullish (case firstChoice data of None \<Rightarrow> None | Some c \<Rightarrow> choice_text c) (Some []))"

text \<open>
  What \<^verbatim>\<open>openAiChatCompletions\<close> returns for the parsed body \<open>data\<close> of a response with
  \<^verbatim>\<open>res.ok\<close>, lines 161-170.
\<close>

definition openAiChatCompletions_text :: "completion \<Rightarrow> jsstring" where
  "openAiChatCompletions_text data =
     (let msg = firstMessage data;
          cleanedContent = stripThinkBlocks (rawContent data);
          cleanedReasoning = stripThinkBlocks (js_or (msg_reasoning_content msg) (Some []));
          content = js_or cleanedContent cleanedReasoning
      in trim (orEmpty (js_or content (Some []))))"

section \<open>Reply chunker\<close>

definition MAX_CHUNK :: nat where  \<comment> \<open>\<^verbatim>\<open>MAX\<close>, line 215\<close>
  "MAX_CHUNK = 1900"

text \<open>\<^verbatim>\<open>s.split('\n')\<close>: the pieces between the line feeds; one piece more than line feeds.\<close>

fun split_lines :: "jsstring \<Rightarrow> jsstring list" where
  "split_lines [] = [[]]"
| "split_lines (c # cs) =
     (if c = LF then [] # split_lines cs
      else (case split_lines cs of [] \<Rightarrow> [[c]] | l # ls \<Rightarrow> (c # l) # ls))"

text \<open>\<^verbatim>\<open>line.slice(i, j)\<close> for \<open>0 \<le> i \<le> j\<close>: the indices are clamped to the length.\<close>

definition slice :: "jsstring \<Rightarrow> nat \<Rightarrow> nat \<Rightarrow> jsstring" where
  "slice s i j = take (j - i) (drop i s)"

text \<open>The state of the loop of \<^verbatim>\<open>sendLongReply\<close>: \<^verbatim>\<open>parts\<close> and \<^verbatim>\<open>buf\<close>.\<close>

record chunker =
  parts :: "jsstring list"
  buf :: jsstring

text \<open>\<^verbatim>\<open>pushBuf\<close>, lines 221-224.\<close>

definition pushBuf :: "chunker \<Rightarrow> chunker" where
  "pushBuf st =
     (if length (trim (buf st)) \<noteq> 0
      then \<lparr>parts = parts st @ [buf st], buf = []\<rparr>
      else \<lparr>parts = parts st, buf = []\<rparr>)"

text \<open>The inner loop, lines 231-233.\<close>

function hardSplit :: "jsstring \<Rightarrow> nat \<Rightarrow> jsstring list \<Rightarrow> jsstring list" where
  "hardSplit line i ps =
     (if i < length line then hardSplit line (i + MAX_CHUNK) (ps @ [slice line i (i + MAX_CHUNK)]) else ps)"
  by pat_completeness auto
termination
  by (relation "measure (\<lambda>(line, i, ps). length line - i)") (auto simp: MAX_CHUNK_def)

text \<open>\<^verbatim>\<open>buf ? `${buf}\n${line}` : line\<close>, lines 227 and 238.\<close>

definition joined :: "jsstring \<Rightarrow> jsstring \<Rightarrow> jsstring" where
  "joined b line = (if b \<noteq> [] then b @ [LF] @ line else line)"

text \<open>The body of the loop over the lines, lines 227-239.\<close>

definition chunkLine :: "chunker \<Rightarrow> jsstring \<Rightarrow> chunker" where
  "chunkLine st line =
     (if length (joined (buf st) line) > MAX_CHUNK
      then
        let st = pushBuf st
        in if length line > MAX_CHUNK
           then st\<lparr>parts := hardSplit line 0 (parts st)\<rparr>
           else st\<lparr>buf := line\<rparr>
      else st\<lparr>buf := joined (buf st) line\<rparr>)"

text \<open>
  The chunks \<^verbatim>\<open>sendLongReply\<close> builds in \<^verbatim>\<open>parts\<close>, lines 215-241, for a \<open>text\<close> that is a
  string or \<^verbatim>\<open>null\<close>/\<^verbatim>\<open>undefined\<close>. Lines 243-246 send \<^verbatim>\<open>parts[0]\<close> as a reply and the
  others to the channel, in order.
\<close>

definition sendLongReply_parts :: "jsstring option \<Rightarrow> jsstring list" where
  "sendLongReply_parts text =
     (let text = (if \<not> truthy text then js ''(no content)'' else orEmpty text)
      in parts (pushBuf (foldl chunkLine \<lparr>parts = [], buf = []\<rparr> (split_lines text))))"


section \<open>System prompt\<close>

definition SYSTEM_PROMPT :: jsstring where  \<comment> \<open>line 30\<close>
  "SYSTEM_PROMPT = js ''You are a helpful Discord assistant. Be concise and accurate.''"

text \<open>The \<^verbatim>\<open>state\<close> object, lines 46-49; a user id is a string.\<close>

record state =
  globalSystemPrompt :: "jsstring option"
  conversations :: "jsstring \<rightharpoonup> conversation"

definition initial_state :: state where
  "initial_state = \<lparr>globalSystemPrompt = Some SYSTEM_PROMPT, conversations = Map.empty\<rparr>"

text \<open>\<^verbatim>\<open>getSystemPrompt\<close>, lines 51-54.\<close>

definition getSystemPrompt :: "state \<Rightarrow> jsstring" where
  "getSystemPrompt st =
     (let p = trim (orEmpty (js_or (globalSystemPrompt st) (Some [])))
      in if length p \<noteq> 0 then p else SYSTEM_PROMPT)"

text \<open>
  The \<^verbatim>\<open>systemprompt\<close> command, lines 319-325, on the state; \<open>resetContext\<close> is
  \<^verbatim>\<open>getBoolean('reset_context') || false\<close>.
\<close>

definition systemprompt_command :: "jsstring \<Rightarrow> bool \<Rightarrow> state \<Rightarrow> state" where
  "systemprompt_command prompt resetContext st =
     (let st = st\<lparr>globalSystemPrompt := Some (trim prompt)\<rparr>;
          st = (if length (orEmpty (globalSystemPrompt st)) = 0
                then st\<lparr>globalSystemPrompt := Some SYSTEM_PROMPT\<rparr> else st)
      in if resetContext then st\<lparr>conversations := Map.empty\<rparr> else st)"

section \<open>Notions used to state the properties\<close>


text \<open>
  A list cut into pieces of \<open>n\<close> elements: its first \<open>n\<close> elements, then the next \<open>n\<close>, and so
  on; the last piece holds what is left, so it can be shorter.
\<close>

function sized_pieces :: "nat \<Rightarrow> 'a list \<Rightarrow> 'a list list" where
  "sized_pieces n xs =
     (if n = 0 \<or> xs = [] then [] else take n xs # sized_pieces n (drop n xs))"
  by pat_completeness auto
termination
  by (relation "measure (\<lambda>(n, xs). length xs)") auto


text \<open>Invariants of the loop of \<^verbatim>\<open>sendLongReply\<close>.\<close>

definition within_max :: "chunker \<Rightarrow> bool" where
  "within_max st \<longleftrightarrow> (\<forall>p\<in>set (parts st). length p \<le> MAX_CHUNK) \<and> length (buf st) \<le> MAX_CHUNK"

definition pending :: "chunker \<Rightarrow> bool" where
  "pending st \<longleftrightarrow> parts st \<noteq> [] \<or> trim (buf st) \<noteq> []"



text \<open>A string without the slashes at its end.\<close>

definition stripTrailingSlashes :: "jsstring \<Rightarrow> jsstring" where
  "stripTrailingSlashes s = rev (dropWhile (\<lambda>c. c = jc CHR ''/'') (rev s))"

text \<open>
  The configured base URL, line 23: the first of \<^verbatim>\<open>OPENAI_BASE_URL\<close> and \<^verbatim>\<open>NOVITA_BASE_URL\<close>
  that is set and not empty, or the default.
\<close>

definition baseUrl :: "env \<Rightarrow> jsstring" where
  "baseUrl e =
     (if truthy (env_OPENAI_BASE_URL e) then orEmpty (env_OPENAI_BASE_URL e)
      else if truthy (env_NOVITA_BASE_URL e) then orEmpty (env_NOVITA_BASE_URL e)
      else js ''https://api.openai.com/v1'')"

text \<open>Notions used in the proofs about the sanitizer.\<close>

fun hasTriple :: "jsstring \<Rightarrow> bool" where
  "hasTriple [] = False"
| "hasTriple (c # cs) = (3 \<le> length (takeWhile isLF (c # cs)) \<or> hasTriple cs)"

definition tagRegex :: "regex \<Rightarrow> bool" where
  "tagRegex re \<longleftrightarrow> (\<exists>r. re = ChrI (jc CHR ''<'') # r)"

section \<open>Example inputs\<close>

definition turn :: "role \<Rightarrow> string \<Rightarrow> message" where
  "turn r s = \<lparr>role = r, content = Some (js s)\<rparr>"

definition history3 :: conversation where
  "history3 = \<lparr>messages = [turn User ''a'', turn Assistant ''bb'', turn User ''ccc'']\<rparr>"

definition env_base :: "string \<Rightarrow> env" where
  "env_base b =
     \<lparr>env_OPENAI_BASE_URL = Some (js b), env_NOVITA_BASE_URL = None, env_OPENAI_API_URL = None\<rparr>"

definition env_override :: "string \<Rightarrow> env" where
  "env_override u =
     \<lparr>env_OPENAI_BASE_URL = None, env_NOVITA_BASE_URL = None, env_OPENAI_API_URL = Some (js u)\<rparr>"

definition reply_of :: "string option \<Rightarrow> string option \<Rightarrow> string option \<Rightarrow> completion" where
  "reply_of c r t =
     \<lparr>choices = Some [\<lparr>choice_message =
                          Some \<lparr>msg_content = map_option js c, msg_reasoning_content = map_option js r\<rparr>,
                        choice_text = map_option js t\<rparr>]\<rparr>"

section \<open>Properties of strings\<close>

lemma trim_Nil_iff: "trim s = [] \<longleftrightarrow> (\<forall>c\<in>set s. isSpace c)"
proof
  assume "trim s = []"
  then have "\<forall>c\<in>set (dropWhile isSpace s). isSpace c"
    by (simp add: trim_def dropWhile_eq_Nil_conv)
  then have "dropWhile isSpace s = []"
    using hd_dropWhile[of isSpace s] hd_in_set[of "dropWhile isSpace s"] by blast
  then show "\<forall>c\<in>set s. isSpace c" by (simp add: dropWhile_eq_Nil_conv)
next
  assume "\<forall>c\<in>set s. isSpace c"
  then have d: "dropWhile isSpace s = []" by (simp add: dropWhile_eq_Nil_conv)
  show "trim s = []" unfolding trim_def d by simp
qed

lemma isSpace_LF: "isSpace LF"
  by (simp add: isSpace_def LF_def)

lemma trim_Nil: "trim [] = []"
  by (simp add: trim_def)

lemma trim_ends:
  assumes "trim s \<noteq> []"
  shows "\<not> isSpace (hd (trim s)) \<and> \<not> isSpace (last (trim s))"
proof -
  let ?u = "dropWhile isSpace s"
  let ?v = "dropWhile isSpace (rev ?u)"
  have v: "?v \<noteq> []" using assms by (simp add: trim_def)
  have u: "?u \<noteq> []"
  proof
    assume "?u = []"
    then have "?v = dropWhile isSpace (rev [])"
      by (rule arg_cong[where f="\<lambda>u. dropWhile isSpace (rev u)"])
    then show False using v by simp
  qed
  have "\<not> isSpace (hd ?v)" using v hd_dropWhile by blast
  then have l: "\<not> isSpace (last (trim s))" using v by (simp add: trim_def last_rev)
  have "\<not> isSpace (hd ?u)" using u hd_dropWhile by blast
  moreover have "last ?v = last (rev ?u)"
    using v by (metis last_appendR takeWhile_dropWhile_id)
  ultimately have "\<not> isSpace (hd (trim s))" using v u by (simp add: trim_def hd_rev last_rev)
  then show ?thesis using l by simp
qed

lemma trim_fixed:
  assumes "s = [] \<or> (\<not> isSpace (hd s) \<and> \<not> isSpace (last s))"
  shows "trim s = s"
proof (cases "s = []")
  case True
  then show ?thesis by (simp add: trim_def)
next
  case False
  then have h: "\<not> isSpace (hd s)" and l: "\<not> isSpace (last s)" using assms by auto
  have "dropWhile isSpace s = s" using False h by (cases s) auto
  moreover have "dropWhile isSpace (rev s) = rev s"
    using False l by (cases "rev s") (auto simp: last_rev hd_rev[symmetric])
  ultimately show ?thesis by (simp add: trim_def)
qed

lemma trim_idem: "trim (trim s) = trim s"
  using trim_ends[of s] by (intro trim_fixed) blast

lemma length_trim: "length (trim s) \<le> length s"
proof -
  have "length (trim s) \<le> length (dropWhile isSpace s)"
    unfolding trim_def by (metis length_dropWhile_le length_rev)
  then show ?thesis using length_dropWhile_le[of isSpace s] by linarith
qed

lemma set_trim: "set (trim s) \<subseteq> set s"
proof -
  have "set (trim s) \<subseteq> set (dropWhile isSpace s)"
    unfolding trim_def using set_dropWhileD by fastforce
  then show ?thesis using set_dropWhileD by fastforce
qed

lemma orEmpty_js_or: "orEmpty (js_or t (Some [])) = orEmpty t"
  by (cases t) (auto simp: orEmpty_def js_or_def truthy_def)

lemma orEmpty_Some: "orEmpty (Some s) = s"
  by (simp add: orEmpty_def)

section \<open>Properties of the regular expressions\<close>

subsection \<open>The matcher\<close>

lemma rmatch_suffix: "rmatch re p s = Some t \<Longrightarrow> suffix t s"
proof (induction re p s arbitrary: t rule: rmatch.induct)
  case (1 p s)
  then show ?case by simp
next
  case (3 a r p c cs)
  then show ?case by (auto split: if_splits intro: suffix_ConsI)
next
  case (5 a r p c cs)
  then show ?case by (auto split: if_splits intro: suffix_ConsI)
next
  case (7 a r p c cs)
  then show ?case by (auto split: if_splits option.splits intro: suffix_ConsI)
next
  case (9 P r p c cs)
  then show ?case by (auto split: if_splits option.splits intro: suffix_ConsI)
next
  case (11 P r p c cs)
  then show ?case by (auto split: if_splits option.splits intro: suffix_ConsI)
next
  case (12 r p s)
  then show ?case by (auto split: if_splits)
next
  case (13 r p s)
  then show ?case by (auto split: if_splits)
qed simp_all

lemma rmatch_length: "rmatch re p s = Some t \<Longrightarrow> length t \<le> length s"
  using rmatch_suffix suffix_length_le by blast

lemma rmatch_set: "rmatch re p s = Some t \<Longrightarrow> set t \<subseteq> set s"
  using rmatch_suffix set_mono_suffix by blast

lemma rmatch_prefix: "rmatch (A @ B) p s = Some t \<Longrightarrow> rmatch A p s \<noteq> None"
proof (induction A p s arbitrary: t rule: rmatch.induct)
  case (1 p s)
  then show ?case by simp
next
  case (3 a r p c cs)
  then show ?case by (auto split: if_splits)
next
  case (5 a r p c cs)
  then show ?case by (auto split: if_splits)
next
  case (7 a r p c cs)
  then show ?case by (auto split: if_splits option.splits)
next
  case (9 P r p c cs)
  then show ?case by (auto split: if_splits option.splits)
next
  case (11 P r p c cs)
  then show ?case by (auto split: if_splits option.splits)
next
  case (12 r p s)
  then show ?case by (auto split: if_splits)
next
  case (13 r p s)
  then show ?case by (auto split: if_splits)
qed simp_all

lemma rmatch_Opt_skip: "rmatch r p s \<noteq> None \<Longrightarrow> rmatch (Opt a # r) p s \<noteq> None"
  by (cases s) (auto split: option.splits)

lemma rmatch_ChrI_consumes: "rmatch (ChrI a # r) p s = Some t \<Longrightarrow> length t < length s"
  by (cases s) (auto split: if_splits dest: rmatch_length)

lemma rmatch_Chr:
  "rmatch (Chr a # r) p s =
     (case s of [] \<Rightarrow> None | c # cs \<Rightarrow> if c = a then rmatch r (Some c) cs else None)"
  by (cases s) simp_all

lemma rmatch_Star_end: "rmatch [Star P] p s = Some (dropWhile P s)"
  by (induction s arbitrary: p) simp_all

subsection \<open>Replacing\<close>

lemma occurs_mono:
  "(\<And>p s. rmatch re1 p s \<noteq> None \<Longrightarrow> rmatch re2 p s \<noteq> None) \<Longrightarrow>
   occurs re1 p s \<Longrightarrow> occurs re2 p s"
  by (induction s arbitrary: p) auto

lemma replaceAll_no_match: "\<not> occurs re p s \<Longrightarrow> replaceAll re rep p s = s"
  by (induction s arbitrary: p) auto

lemma length_replaceAll:
  assumes "\<And>p s t. rmatch re p s = Some t \<Longrightarrow> length t + length rep \<le> length s"
  shows "length (replaceAll re rep p s) \<le> length s"
proof (induction "length s" arbitrary: s p rule: less_induct)
  case less
  show ?case
  proof (cases s)
    case Nil
    show ?thesis
    proof (cases "rmatch re p []")
      case None
      then show ?thesis using Nil by simp
    next
      case (Some t)
      then show ?thesis using assms[OF Some] Nil by simp
    qed
  next
    case (Cons c cs)
    show ?thesis
    proof (cases "rmatch re p (c # cs)")
      case None
      then show ?thesis using less[of cs "Some c"] Cons by simp
    next
      case (Some t)
      have b: "length t + length rep \<le> Suc (length cs)" using assms[OF Some] by simp
      show ?thesis
      proof (cases "length t \<le> length cs")
        case True
        then have "length (replaceAll re rep (Some ((c # cs) ! (length cs - length t))) t) \<le> length t"
          using less[of t] Cons by simp
        then show ?thesis using Some True b Cons by simp
      next
        case False
        then have "length rep = 0" using b by arith
        then have "rep = []" by simp
        then show ?thesis using Some less[of cs "Some c"] False Cons by simp
      qed
    qed
  qed
qed

lemma replaceAll_shrinks:
  assumes "\<And>p s t. rmatch re p s = Some t \<Longrightarrow> length t < length s"
  shows "occurs re p s \<Longrightarrow> length (replaceAll re [] p s) < length s"
proof (induction s arbitrary: p)
  case Nil
  then show ?case using assms[of p "[]"] by auto
next
  case (Cons c cs)
  have le: "length (replaceAll re [] q u) \<le> length u" for q u
    using assms by (intro length_replaceAll) (simp add: less_imp_le)
  show ?case
  proof (cases "rmatch re p (c # cs)")
    case None
    then show ?thesis using Cons by simp
  next
    case (Some t)
    then have t: "length t \<le> length cs" using assms[OF Some] by simp
    have "length (replaceAll re [] (Some ((c # cs) ! (length cs - length t))) t) \<le> length t"
      by (rule le)
    then show ?thesis using Some t by simp
  qed
qed

lemma set_replaceAll: "set (replaceAll re rep p s) \<subseteq> set s \<union> set rep"
proof (induction re rep p s rule: replaceAll.induct)
  case (1 re rep p)
  then show ?case by (auto split: option.splits)
next
  case (2 re rep p c cs)
  show ?case
  proof (cases "rmatch re p (c # cs)")
    case None
    then show ?thesis using 2 by auto
  next
    case (Some t)
    then have "set t \<subseteq> set (c # cs)" by (rule rmatch_set)
    then show ?thesis using Some 2 by (cases "length t \<le> length cs") auto
  qed
qed

section \<open>Properties of the sanitizer\<close>

subsection \<open>Tags and blocks\<close>

lemma think_block_is_tag:
  assumes "rmatch re_think_block p s \<noteq> None"
  shows "rmatch re_think_tag p s \<noteq> None"
proof -
  let ?R = "liti ''think'' @ [WordB, Star notGt, ChrI (jc CHR ''>'')]"
  have b: "re_think_block = (ChrI (jc CHR ''<'') # ?R) @ (Lazy anyChar # liti ''</think>'')"
    by (simp add: re_think_block_def liti_def)
  have t: "re_think_tag = ChrI (jc CHR ''<'') # Opt (jc CHR ''/'') # ?R"
    by (simp add: re_think_tag_def)
  from assms obtain u where "rmatch re_think_block p s = Some u" by auto
  then have m: "rmatch (ChrI (jc CHR ''<'') # ?R) p s \<noteq> None"
    unfolding b by (rule rmatch_prefix)
  then obtain c cs where s: "s = c # cs" by (cases s) auto
  with m have c: "canon c = canon (jc CHR ''<'')" and r: "rmatch ?R (Some c) cs \<noteq> None"
    by (auto split: if_splits)
  from r have "rmatch (Opt (jc CHR ''/'') # ?R) (Some c) cs \<noteq> None"
    by (rule rmatch_Opt_skip)
  then show ?thesis by (simp add: s c t)
qed

lemma reasoning_block_is_tag:
  assumes "rmatch re_reasoning_block p s \<noteq> None"
  shows "rmatch re_reasoning_tag p s \<noteq> None"
proof -
  let ?R = "Star isSpace # liti ''reasoning'' @ [WordB, Star notGt, ChrI (jc CHR ''>'')]"
  have b: "re_reasoning_block = (ChrI (jc CHR ''<'') # ?R) @
      (Lazy anyChar # liti ''</'' @ [Star isSpace] @ liti ''reasoning'' @ [Star isSpace, ChrI (jc CHR ''>'')])"
    by (simp add: re_reasoning_block_def)
  have t: "re_reasoning_tag = ChrI (jc CHR ''<'') # Opt (jc CHR ''/'') # ?R"
    by (simp add: re_reasoning_tag_def)
  from assms obtain u where "rmatch re_reasoning_block p s = Some u" by auto
  then have m: "rmatch (ChrI (jc CHR ''<'') # ?R) p s \<noteq> None"
    unfolding b by (rule rmatch_prefix)
  then obtain c cs where s: "s = c # cs" by (cases s) auto
  with m have c: "canon c = canon (jc CHR ''<'')" and r: "rmatch ?R (Some c) cs \<noteq> None"
    by (auto split: if_splits)
  from r have "rmatch (Opt (jc CHR ''/'') # ?R) (Some c) cs \<noteq> None"
    by (rule rmatch_Opt_skip)
  then show ?thesis by (simp add: s c t)
qed

lemma tagRegex_consumes: "tagRegex re \<Longrightarrow> rmatch re p s = Some t \<Longrightarrow> length t < length s"
  using rmatch_ChrI_consumes by (auto simp: tagRegex_def)

lemma canon_lt: "canon c = canon (jc CHR ''<'') \<Longrightarrow> c = jc CHR ''<''"
proof -
  assume a: "canon c = canon (jc CHR ''<'')"
  have l: "canon (jc CHR ''<'') = 0x3C" by (simp add: canon_def jc_def)
  show ?thesis
  proof (cases "0x61 \<le> c \<and> c \<le> 0x7A")
    case True
    then have "c - 0x20 = 0x3C" using a l by (simp add: canon_def)
    then have "c = 0x5C" by (simp add: diff_eq_eq)
    then show ?thesis using True by simp
  next
    case False
    have "canon c = c" unfolding canon_def using False by (rule if_not_P)
    then show ?thesis using a l by (simp add: jc_def)
  qed
qed

lemma tagRegex_needs_lt:
  assumes "tagRegex re" "jc CHR ''<'' \<notin> set s"
  shows "\<not> occurs re p s"
  using assms(2)
proof (induction s arbitrary: p)
  case Nil
  then show ?case using assms(1) by (auto simp: tagRegex_def)
next
  case (Cons c cs)
  then have "c \<noteq> jc CHR ''<''" by auto
  then have "canon c \<noteq> canon (jc CHR ''<'')" using canon_lt by blast
  then have "rmatch re p (c # cs) = None" using assms(1) by (auto simp: tagRegex_def)
  then show ?case using Cons by simp
qed

subsection \<open>Line feeds\<close>

lemma rmatch_newlines:
  "rmatch re_newlines p s =
     (if 3 \<le> length (takeWhile isLF s) then Some (dropWhile isLF s) else None)"
  by (auto simp: re_newlines_def rmatch_Chr rmatch_Star_end isLF_def split: list.splits)

lemma occurs_newlines: "occurs re_newlines p s = hasTriple s"
  by (induction s arbitrary: p) (simp_all add: rmatch_newlines)

lemma newlines_consume:
  "rmatch re_newlines p s = Some t \<Longrightarrow> length t + length [LF, LF] \<le> length s"
proof -
  assume "rmatch re_newlines p s = Some t"
  then have a: "3 \<le> length (takeWhile isLF s)" and t: "t = dropWhile isLF s"
    by (auto simp: rmatch_newlines split: if_splits)
  have "length (takeWhile isLF s) + length (dropWhile isLF s) = length s"
    by (metis length_append takeWhile_dropWhile_id)
  then show ?thesis using a t by simp
qed

lemma collapse_runs:
  "length (takeWhile isLF (replaceAll re_newlines [LF, LF] p s)) = min 2 (length (takeWhile isLF s)) \<and>
   \<not> hasTriple (replaceAll re_newlines [LF, LF] p s)"
proof (induction "length s" arbitrary: s p rule: less_induct)
  case less
  show ?case
  proof (cases s)
    case Nil
    then show ?thesis by (simp add: rmatch_newlines)
  next
    case (Cons c cs)
    show ?thesis
    proof (cases "3 \<le> length (takeWhile isLF (c # cs))")
      case True
      let ?t = "dropWhile isLF (c # cs)"
      have m: "rmatch re_newlines p (c # cs) = Some ?t"
        using True by (simp only: rmatch_newlines if_True)
      have lt: "length ?t + 2 \<le> length (c # cs)" using newlines_consume[OF m] by simp
      then have le: "length ?t \<le> length cs" by simp
      let ?o = "replaceAll re_newlines [LF, LF] (Some ((c # cs) ! (length cs - length ?t))) ?t"
      have "length ?t < length s" using lt Cons by simp
      then have ih: "length (takeWhile isLF ?o) = min 2 (length (takeWhile isLF ?t)) \<and> \<not> hasTriple ?o"
        by (rule less)
      have z: "takeWhile isLF ?t = []"
        by (metis (full_types) hd_dropWhile takeWhile_eq_Nil_iff)
      have out: "replaceAll re_newlines [LF, LF] p (c # cs) = LF # LF # ?o"
        using le by (simp only: replaceAll.simps m option.case if_True append.simps)
      have o0: "takeWhile isLF ?o = []" using ih z by simp
      have r1: "length (takeWhile isLF (LF # LF # ?o)) = 2" using o0 by (simp add: isLF_def)
      have r2: "\<not> hasTriple (LF # LF # ?o)" using ih o0 by (simp add: isLF_def)
      have r3: "min 2 (length (takeWhile isLF (c # cs))) = 2" using True by linarith
      show ?thesis unfolding Cons out using r1 r2 r3 by presburger
    next
      case False
      then have m: "rmatch re_newlines p (c # cs) = None"
        by (simp only: rmatch_newlines if_False)
      let ?o = "replaceAll re_newlines [LF, LF] (Some c) cs"
      have ih: "length (takeWhile isLF ?o) = min 2 (length (takeWhile isLF cs)) \<and> \<not> hasTriple ?o"
        using less[of cs] Cons by simp
      have out: "replaceAll re_newlines [LF, LF] p (c # cs) = c # ?o"
        by (simp only: replaceAll.simps m option.case)
      show ?thesis unfolding Cons out using ih False by (auto split: if_splits)
    qed
  qed
qed

lemma hasTriple_dropWhile: "hasTriple (dropWhile P s) \<Longrightarrow> hasTriple s"
  by (induction s) (auto split: if_splits)

lemma length_takeWhile_append:
  "length (takeWhile P xs) \<le> length (takeWhile P (xs @ ys))"
  by (induction xs) simp_all

lemma hasTriple_append: "hasTriple m \<Longrightarrow> hasTriple (m @ b)"
proof (induction m)
  case Nil
  then show ?case by simp
next
  case (Cons c m)
  have "length (takeWhile isLF (c # m)) \<le> length (takeWhile isLF ((c # m) @ b))"
    by (rule length_takeWhile_append)
  then show ?case using Cons by (simp del: takeWhile.simps) linarith
qed

lemma hasTriple_trim: "hasTriple (trim s) \<Longrightarrow> hasTriple s"
proof -
  assume a: "hasTriple (trim s)"
  let ?u = "dropWhile isSpace s"
  have "rev (takeWhile isSpace (rev ?u) @ dropWhile isSpace (rev ?u)) =
      rev (dropWhile isSpace (rev ?u)) @ rev (takeWhile isSpace (rev ?u))"
    by (rule rev_append)
  then have "rev (rev ?u) = trim s @ rev (takeWhile isSpace (rev ?u))"
    by (simp only: takeWhile_dropWhile_id trim_def)
  then have "?u = trim s @ rev (takeWhile isSpace (rev ?u))"
    by (simp only: rev_rev_ident)
  then have "hasTriple ?u" using a hasTriple_append by metis
  then show ?thesis by (rule hasTriple_dropWhile)
qed

subsection \<open>Idempotence\<close>

lemma tagRegexes:
  "tagRegex re_think_block" "tagRegex re_think_tag"
  "tagRegex re_reasoning_block" "tagRegex re_reasoning_tag"
  by (simp_all add: tagRegex_def re_think_block_def re_think_tag_def re_reasoning_block_def
      re_reasoning_tag_def liti_def)

lemma tagRegex_Nil: "tagRegex re \<Longrightarrow> \<not> occurs re p []"
  by (auto simp: tagRegex_def)

lemma stripThinkBlocks_Some_ex: "\<exists>t. stripThinkBlocks (Some s) = Some t"
  by (cases "s = []") (simp_all add: stripThinkBlocks_def Let_def)

lemma erase_cases:
  assumes "tagRegex re"
  shows "(if occurs re p s then length (replaceAll re [] p s) < length s
          else replaceAll re [] p s = s)"
  using replaceAll_shrinks[of re p s] tagRegex_consumes[OF assms] replaceAll_no_match[of re p s "[]"]
  by auto

lemma erase_length: "tagRegex re \<Longrightarrow> length (replaceAll re [] p s) \<le> length s"
  using erase_cases[of re p s] by (auto split: if_splits)

lemma collapse_length: "length (replaceAll re_newlines [LF, LF] p s) \<le> length s"
  using newlines_consume by (rule length_replaceAll)

lemma stripThinkBlocks_nonempty:
  "s \<noteq> [] \<Longrightarrow>
   stripThinkBlocks (Some s) =
     Some (trim (replaceAll re_newlines [LF, LF] None
       (replaceAll re_reasoning_tag [] None
         (replaceAll re_reasoning_block [] None
           (replaceAll re_think_tag [] None
             (replaceAll re_think_block [] None s))))))"
  by (simp add: stripThinkBlocks_def Let_def)

lemma stripThinkBlocks_empty: "stripThinkBlocks (Some []) = Some []"
  by (simp add: stripThinkBlocks_def)

lemma sanitized_form:
  assumes "stripThinkBlocks (Some s) = Some t"
  shows "trim t = t \<and> \<not> hasTriple t"
proof (cases "s = []")
  case True
  then have "t = []" using assms by (simp add: stripThinkBlocks_empty)
  then show ?thesis by (simp add: trim_Nil)
next
  case False
  then obtain z where t: "t = trim (replaceAll re_newlines [LF, LF] None z)"
    using assms by (auto simp: stripThinkBlocks_nonempty)
  have "\<not> hasTriple (replaceAll re_newlines [LF, LF] None z)"
    using collapse_runs by blast
  then have "\<not> hasTriple t" using t hasTriple_trim by blast
  then show ?thesis using t by (simp add: trim_idem)
qed

lemma sanitized_fixed:
  assumes "trim t = t" "\<not> hasTriple t"
    and "\<not> occurs re_think_tag None t" "\<not> occurs re_reasoning_tag None t"
  shows "stripThinkBlocks (Some t) = Some t"
proof (cases "t = []")
  case True
  then show ?thesis by (simp add: stripThinkBlocks_empty)
next
  case False
  have "\<not> occurs re_think_block None t"
    using assms(3) occurs_mono[of re_think_block re_think_tag None t] think_block_is_tag by blast
  then have 1: "replaceAll re_think_block [] None t = t" by (rule replaceAll_no_match)
  have 2: "replaceAll re_think_tag [] None t = t" using assms(3) by (rule replaceAll_no_match)
  have "\<not> occurs re_reasoning_block None t"
    using assms(4) occurs_mono[of re_reasoning_block re_reasoning_tag None t] reasoning_block_is_tag
    by blast
  then have 3: "replaceAll re_reasoning_block [] None t = t" by (rule replaceAll_no_match)
  have 4: "replaceAll re_reasoning_tag [] None t = t" using assms(4) by (rule replaceAll_no_match)
  have "\<not> occurs re_newlines None t" using assms(2) by (simp add: occurs_newlines)
  then have 5: "replaceAll re_newlines [LF, LF] None t = t" by (rule replaceAll_no_match)
  show ?thesis using False assms(1) by (simp add: stripThinkBlocks_nonempty 1 2 3 4 5)
qed

lemma tagged_not_fixed:
  assumes "occurs re_think_tag None t \<or> occurs re_reasoning_tag None t"
  shows "stripThinkBlocks (Some t) \<noteq> Some t"
proof -
  let ?s1 = "replaceAll re_think_block [] None t"
  let ?s2 = "replaceAll re_think_tag [] None ?s1"
  let ?s3 = "replaceAll re_reasoning_block [] None ?s2"
  let ?s4 = "replaceAll re_reasoning_tag [] None ?s3"
  let ?r = "trim (replaceAll re_newlines [LF, LF] None ?s4)"
  have ne: "t \<noteq> []"
    using assms tagRegex_Nil[OF tagRegexes(2)] tagRegex_Nil[OF tagRegexes(4)] by auto
  have l1: "length ?s1 \<le> length t" and l2: "length ?s2 \<le> length ?s1"
    and l3: "length ?s3 \<le> length ?s2" and l4: "length ?s4 \<le> length ?s3"
    using tagRegexes by (simp_all add: erase_length)
  have l5: "length ?r \<le> length ?s4"
    using length_trim collapse_length le_trans by blast
  have c1: "if occurs re_think_block None t then length ?s1 < length t else ?s1 = t"
    using tagRegexes(1) by (rule erase_cases)
  have c2: "if occurs re_think_tag None ?s1 then length ?s2 < length ?s1 else ?s2 = ?s1"
    using tagRegexes(2) by (rule erase_cases)
  have c3: "if occurs re_reasoning_block None ?s2 then length ?s3 < length ?s2 else ?s3 = ?s2"
    using tagRegexes(3) by (rule erase_cases)
  have c4: "if occurs re_reasoning_tag None ?s3 then length ?s4 < length ?s3 else ?s4 = ?s3"
    using tagRegexes(4) by (rule erase_cases)
  have "length ?s4 < length t"
  proof (cases "length ?s3 < length t")
    case True
    then show ?thesis using l4 by linarith
  next
    case False
    then have e3: "length ?s3 = length t" and e2: "length ?s2 = length t" and e1: "length ?s1 = length t"
      using l1 l2 l3 by linarith+
    have s1: "?s1 = t" using c1 e1 by (auto split: if_splits)
    have s2: "?s2 = t" "\<not> occurs re_think_tag None t" using c2 e2 e1 s1 by (auto split: if_splits)
    have s3: "?s3 = t" using c3 e3 e2 s2 s1 by (auto split: if_splits)
    have "occurs re_reasoning_tag None t" using assms s2 by blast
    then have "length ?s4 < length ?s3" using c4 s3 by (auto split: if_splits)
    then show ?thesis using e3 by simp
  qed
  then have "length ?r < length t" using l5 by linarith
  then have "?r \<noteq> t" by auto
  then show ?thesis using ne by (simp add: stripThinkBlocks_nonempty)
qed

lemma no_lt_kept:
  assumes "stripThinkBlocks (Some s) = Some t" "jc CHR ''<'' \<notin> set s"
  shows "jc CHR ''<'' \<notin> set t"
proof (cases "s = []")
  case True
  then show ?thesis using assms by (simp add: stripThinkBlocks_empty)
next
  case False
  let ?s1 = "replaceAll re_think_block [] None s"
  let ?s2 = "replaceAll re_think_tag [] None ?s1"
  let ?s3 = "replaceAll re_reasoning_block [] None ?s2"
  let ?s4 = "replaceAll re_reasoning_tag [] None ?s3"
  let ?s5 = "replaceAll re_newlines [LF, LF] None ?s4"
  have t: "t = trim ?s5" using assms False by (simp add: stripThinkBlocks_nonempty)
  have "set ?s4 \<subseteq> set s"
    using set_replaceAll[of re_think_block "[]" None s] set_replaceAll[of re_think_tag "[]" None ?s1]
      set_replaceAll[of re_reasoning_block "[]" None ?s2] set_replaceAll[of re_reasoning_tag "[]" None ?s3]
    by auto
  moreover have "set ?s5 \<subseteq> set ?s4 \<union> {LF}"
    using set_replaceAll[of re_newlines "[LF, LF]" None ?s4] by auto
  moreover have "set t \<subseteq> set ?s5" using t set_trim by simp
  moreover have "jc CHR ''<'' \<noteq> LF" by (simp add: jc_def LF_def)
  ultimately show ?thesis using assms(2) by blast
qed

text \<open>
  C2, as amended. Sanitizing twice gives the same as sanitizing once exactly when the
  sanitized text has no place left where \<^verbatim>\<open>/<\/?think\b[^>]*>/i\<close> or
  \<^verbatim>\<open>/<\/?\s*reasoning\b[^>]*>/i\<close> matches; in particular for every text without
  \<^verbatim>\<open><\<close>, and for null.
\<close>

theorem stripThinkBlocks_idempotent_iff:
  "(stripThinkBlocks (stripThinkBlocks x) = stripThinkBlocks x \<longleftrightarrow>
      (\<forall>t. stripThinkBlocks x = Some t \<longrightarrow>
         \<not> occurs re_think_tag None t \<and> \<not> occurs re_reasoning_tag None t)) \<and>
   (\<forall>s. x = Some s \<and> jc CHR ''<'' \<notin> set s \<longrightarrow>
      stripThinkBlocks (stripThinkBlocks x) = stripThinkBlocks x)"
proof (cases x)
  case None
  then show ?thesis by (simp add: stripThinkBlocks_def)
next
  case (Some s)
  obtain t where t: "stripThinkBlocks (Some s) = Some t"
    using stripThinkBlocks_Some_ex by blast
  have f: "trim t = t" "\<not> hasTriple t" using sanitized_form[OF t] by simp_all
  have a: "stripThinkBlocks (Some t) = Some t \<longleftrightarrow>
      \<not> occurs re_think_tag None t \<and> \<not> occurs re_reasoning_tag None t"
    using sanitized_fixed[OF f] tagged_not_fixed[of t] by blast
  have b: "stripThinkBlocks (Some t) = Some t" if "jc CHR ''<'' \<notin> set s"
  proof -
    have "jc CHR ''<'' \<notin> set t" using t that by (rule no_lt_kept)
    then have "\<not> occurs re_think_tag None t" "\<not> occurs re_reasoning_tag None t"
      using tagRegexes tagRegex_needs_lt by blast+
    then show ?thesis using a by blast
  qed
  show ?thesis using Some t a b by simp
qed

lemmas strip_eval = js_def jc_def LF_def trim_def isSpace_def canon_def isWord_def wordBefore_def
  wordAfter_def liti_def notGt_def anyChar_def isLF_def re_think_block_def re_think_tag_def
  re_reasoning_block_def re_reasoning_tag_def re_newlines_def stripThinkBlocks_def

theorem stripThinkBlocks_idempotent_iff_witness:
  "stripThinkBlocks (Some (js ''a<think>x</think>Hi <b>there</b>  '')) = Some (js ''aHi <b>there</b>'') \<and>
   \<not> occurs re_think_tag None (js ''aHi <b>there</b>'') \<and>
   \<not> occurs re_reasoning_tag None (js ''aHi <b>there</b>'') \<and>
   stripThinkBlocks (Some (js ''aHi <b>there</b>'')) = Some (js ''aHi <b>there</b>'') \<and>
   jc CHR ''<'' \<notin> set (js '' hi  '') \<and>
   stripThinkBlocks (stripThinkBlocks (Some (js '' hi  ''))) = stripThinkBlocks (Some (js '' hi  ''))"
proof -
  have a: "stripThinkBlocks (Some (js ''a<think>x</think>Hi <b>there</b>  '')) = Some (js ''aHi <b>there</b>'')"
    by (simp add: strip_eval)
  have b: "\<not> occurs re_think_tag None (js ''aHi <b>there</b>'')"
    "\<not> occurs re_reasoning_tag None (js ''aHi <b>there</b>'')"
    by (simp_all add: strip_eval)
  have c: "jc CHR ''<'' \<notin> set (js '' hi  '')" by (simp add: js_def jc_def)
  show ?thesis
    using a b c stripThinkBlocks_idempotent_iff [of "Some (js ''a<think>x</think>Hi <b>there</b>  '')"]
      stripThinkBlocks_idempotent_iff [of "Some (js '' hi  '')"]
    by simp
qed

text \<open>
  C2, as stated, fails: removing the inner tag of \<^verbatim>\<open><<think>think>\<close> leaves
  \<^verbatim>\<open><think>\<close>, which a second pass removes.
\<close>

theorem stripThinkBlocks_idempotent_counterexample:
  "stripThinkBlocks (Some (js ''<<think>think>'')) = Some (js ''<think>'') \<and>
   stripThinkBlocks (Some (js ''<think>'')) = Some [] \<and>
   stripThinkBlocks (stripThinkBlocks (Some (js ''<<think>think>''))) \<noteq>
     stripThinkBlocks (Some (js ''<<think>think>''))"
proof -
  have a: "stripThinkBlocks (Some (js ''<<think>think>'')) = Some (js ''<think>'')"
    by (simp add: strip_eval)
  have b: "stripThinkBlocks (Some (js ''<think>'')) = Some []"
    by (simp add: strip_eval)
  have c: "js ''<think>'' \<noteq> []" by (simp add: js_def)
  show ?thesis using a b c by simp
qed

section \<open>Properties of the conversation store\<close>

declare trimChars.simps [simp del]

lemma approxChars_from_sum:
  "approxChars_from n ms = n + sum_list (map (\<lambda>m. length (orEmpty (content m))) ms)"
  by (induction ms arbitrary: n) simp_all

lemma approxChars_sum:
  "approxChars ms = sum_list (map (\<lambda>m. length (orEmpty (content m))) ms)"
  by (simp add: approxChars_def approxChars_from_sum)

lemma suffix_shift: "suffix (shift xs) xs"
  by (cases xs) (simp_all add: suffix_ConsI)

lemma js_le_iff: "b \<noteq> NaN \<Longrightarrow> js_le n b \<longleftrightarrow> \<not> js_gt n b"
  by (cases b) auto

lemma js_gt_mono: "js_gt m b \<Longrightarrow> m \<le> n \<Longrightarrow> js_gt n b"
  by (cases b) auto

lemma trimCount_sound:
  "trimCount mx ms = Some r \<Longrightarrow> \<not> js_gt (length r) mx \<and> suffix r ms"
proof (induction rule: trimCount.raw_induct[rotated 1, consumes 1])
  case (1 trimCount' mx ms r)
  show ?case
  proof (cases "js_gt (length ms) mx")
    case True
    with 1 have "\<not> js_gt (length r) mx \<and> suffix r (shift ms)" by simp
    then show ?thesis using suffix_shift suffix_order.trans by blast
  next
    case False
    with 1 show ?thesis by simp
  qed
qed

lemma trimCount_returns: "\<not> js_gt 0 mx \<Longrightarrow> \<exists>r. trimCount mx ms = Some r"
proof (induction ms)
  case Nil
  then show ?case by (subst trimCount.simps) simp
next
  case (Cons m ms)
  show ?case
  proof (cases "js_gt (length (m # ms)) mx")
    case True
    then have "trimCount mx (m # ms) = trimCount mx ms"
      by (subst trimCount.simps) simp
    then show ?thesis using Cons by simp
  next
    case False
    then show ?thesis by (subst trimCount.simps) simp
  qed
qed

lemma trimCount_diverges: "js_gt 0 mx \<Longrightarrow> trimCount mx ms = None"
  using trimCount_sound[of mx ms] js_gt_mono[of 0 mx] by (cases "trimCount mx ms") auto

lemma trimCount_NaN: "trimCount NaN ms = Some ms"
  by (subst trimCount.simps) simp

lemma trimCount_keeps_aux:
  "trimCount mx ms = Some r \<Longrightarrow> ms \<noteq> [] \<and> \<not> js_gt 1 mx \<longrightarrow> r \<noteq> []"
proof (induction rule: trimCount.raw_induct[rotated 1, consumes 1])
  case (1 trimCount' mx ms r)
  show ?case
  proof (intro impI)
    assume a: "ms \<noteq> [] \<and> \<not> js_gt 1 mx"
    show "r \<noteq> []"
    proof (cases "js_gt (length ms) mx")
      case True
      have "length ms \<noteq> 1" using True a by auto
      then have "shift ms \<noteq> []" using a by (cases ms) auto
      then show ?thesis using 1 True a by simp
    next
      case False
      with 1 a show ?thesis by simp
    qed
  qed
qed

lemma trimCount_keeps:
  "trimCount mx ms = Some r \<Longrightarrow> ms \<noteq> [] \<Longrightarrow> \<not> js_gt 1 mx \<Longrightarrow> r \<noteq> []"
  using trimCount_keeps_aux by blast

lemma trimChars_step:
  "js_gt (approxChars ms) mc \<Longrightarrow> length ms > 1 \<Longrightarrow> trimChars mc ms = trimChars mc (shift ms)"
  by (subst trimChars.simps) simp

lemma trimChars_stop:
  "\<not> (js_gt (approxChars ms) mc \<and> length ms > 1) \<Longrightarrow> trimChars mc ms = ms"
  by (subst trimChars.simps) auto

lemma trimChars_NaN: "trimChars NaN ms = ms"
  by (simp add: trimChars_stop)

lemma suffix_trimChars: "suffix (trimChars mc ms) ms"
proof (induction mc ms rule: trimChars.induct)
  case (1 mc ms)
  show ?case
  proof (cases "js_gt (approxChars ms) mc \<and> length ms > 1")
    case True
    then have "suffix (trimChars mc (shift ms)) (shift ms)" using 1 by simp
    then have "suffix (trimChars mc (shift ms)) ms"
      using suffix_shift suffix_order.trans by blast
    then show ?thesis using True by (simp add: trimChars_step)
  next
    case False
    then show ?thesis by (simp add: trimChars_stop)
  qed
qed

lemma trimChars_nonempty: "ms \<noteq> [] \<Longrightarrow> trimChars mc ms \<noteq> []"
proof (induction mc ms rule: trimChars.induct)
  case (1 mc ms)
  show ?case
  proof (cases "js_gt (approxChars ms) mc \<and> length ms > 1")
    case True
    then have "shift ms \<noteq> []" by (cases ms) auto
    then have "trimChars mc (shift ms) \<noteq> []" using "1.IH" True by simp
    then show ?thesis using True by (simp add: trimChars_step)
  next
    case False
    then show ?thesis using "1.prems" by (simp add: trimChars_stop)
  qed
qed

lemma trimChars_last: "ms \<noteq> [] \<Longrightarrow> last (trimChars mc ms) = last ms"
proof -
  assume ne: "ms \<noteq> []"
  obtain zs where "ms = zs @ trimChars mc ms"
    using suffix_trimChars[of mc ms] by (auto simp: suffix_def)
  then show ?thesis
    using trimChars_nonempty[OF ne, of mc] by (metis last_appendR)
qed

lemma trimChars_budget:
  "1 < length (trimChars mc ms) \<Longrightarrow> \<not> js_gt (approxChars (trimChars mc ms)) mc"
proof (induction mc ms rule: trimChars.induct)
  case (1 mc ms)
  show ?case
  proof (cases "js_gt (approxChars ms) mc \<and> length ms > 1")
    case True
    then have eq: "trimChars mc ms = trimChars mc (shift ms)"
      by (simp add: trimChars_step)
    then show ?thesis using 1 True by simp
  next
    case False
    then have eq: "trimChars mc ms = ms" by (simp add: trimChars_stop)
    then show ?thesis using 1 False by auto
  qed
qed

text \<open>
  C1, as amended. When \<^verbatim>\<open>trimHistory\<close> returns: if \<^verbatim>\<open>MAX_HISTORY_MESSAGES\<close> is not \<^verbatim>\<open>NaN\<close>,
  the conversation has at most that many messages; if \<^verbatim>\<open>MAX_HISTORY_CHARS\<close> is not \<^verbatim>\<open>NaN\<close>
  and more than one message is left, the sum of their content lengths is at most that
  bound. The character loop never empties a non-empty list and keeps its last message,
  whatever the character bound: the result is empty only if the conversation was empty or
  the message bound is below 1. \<^verbatim>\<open>trimHistory\<close> does return unless the message bound is
  below 0.
\<close>

theorem trimHistory_bounds:
  "(\<not> js_gt 0 maxMessages \<longrightarrow> trimHistory maxMessages maxChars c \<noteq> None) \<and>
   (\<forall>c'. trimHistory maxMessages maxChars c = Some c' \<longrightarrow>
      (maxMessages \<noteq> NaN \<longrightarrow> js_le (length (messages c')) maxMessages) \<and>
      (maxChars \<noteq> NaN \<and> 1 < length (messages c') \<longrightarrow>
         js_le (sum_list (map (\<lambda>m. length (orEmpty (content m))) (messages c'))) maxChars) \<and>
      (\<not> js_gt 1 maxMessages \<and> messages c \<noteq> [] \<longrightarrow> messages c' \<noteq> [])) \<and>
   (\<forall>ms. ms \<noteq> [] \<longrightarrow>
      trimChars maxChars ms \<noteq> [] \<and> last (trimChars maxChars ms) = last ms)"
proof (intro conjI allI impI)
  assume "\<not> js_gt 0 maxMessages"
  then show "trimHistory maxMessages maxChars c \<noteq> None"
    using trimCount_returns[of maxMessages "messages c"] by (auto simp: trimHistory_def)
next
  fix c' assume h: "trimHistory maxMessages maxChars c = Some c'"
  then obtain r where r: "trimCount maxMessages (messages c) = Some r"
    and c': "messages c' = trimChars maxChars r"
    by (auto simp: trimHistory_def split: option.splits)
  have "length (trimChars maxChars r) \<le> length r"
    using suffix_trimChars[of maxChars r] by (simp add: suffix_length_le)
  then have "\<not> js_gt (length (messages c')) maxMessages"
    using trimCount_sound[OF r] c' js_gt_mono by auto
  then show "js_le (length (messages c')) maxMessages" if "maxMessages \<noteq> NaN"
    using that by (simp add: js_le_iff)
  show "js_le (sum_list (map (\<lambda>m. length (orEmpty (content m))) (messages c'))) maxChars"
    if "maxChars \<noteq> NaN \<and> 1 < length (messages c')"
    using that trimChars_budget[of maxChars r] c' by (simp add: approxChars_sum js_le_iff)
  show "messages c' \<noteq> []" if "\<not> js_gt 1 maxMessages \<and> messages c \<noteq> []"
    using that trimCount_keeps[OF r] trimChars_nonempty[of r maxChars] c' by simp
next
  fix ms :: "message list" assume "ms \<noteq> []"
  then show "trimChars maxChars ms \<noteq> []" by (rule trimChars_nonempty)
next
  fix ms :: "message list" assume "ms \<noteq> []"
  then show "last (trimChars maxChars ms) = last ms" by (rule trimChars_last)
qed

lemmas trim_eval = trimHistory_def history3_def turn_def trimCount.simps trimChars.simps
  approxChars_def orEmpty_def js_def

theorem trimHistory_bounds_witness:
  "\<not> js_gt 0 (Fin 2) \<and> \<not> js_gt 1 (Fin 2) \<and> Fin 2 \<noteq> NaN \<and> Fin 5 \<noteq> NaN \<and>
   messages history3 \<noteq> [] \<and>
   trimHistory (Fin 2) (Fin 5) history3 =
     Some \<lparr>messages = [turn Assistant ''bb'', turn User ''ccc'']\<rparr> \<and>
   js_le (length [turn Assistant ''bb'', turn User ''ccc'']) (Fin 2) \<and>
   1 < length [turn Assistant ''bb'', turn User ''ccc''] \<and>
   js_le (sum_list (map (\<lambda>m. length (orEmpty (content m)))
            [turn Assistant ''bb'', turn User ''ccc''])) (Fin 5) \<and>
   trimHistory (Fin 2) (Fin 3) history3 = Some \<lparr>messages = [turn User ''ccc'']\<rparr> \<and>
   trimChars (Fin 3) [turn User ''ccc''] \<noteq> [] \<and>
   last (trimChars (Fin 3) [turn User ''ccc'']) = turn User ''ccc''"
proof -
  have a: "trimHistory (Fin 2) (Fin 5) history3 =
      Some \<lparr>messages = [turn Assistant ''bb'', turn User ''ccc'']\<rparr>"
    by (simp add: trim_eval)
  have b: "trimHistory (Fin 2) (Fin 3) history3 = Some \<lparr>messages = [turn User ''ccc'']\<rparr>"
    by (simp add: trim_eval)
  have c: "messages history3 \<noteq> []"
    by (simp add: history3_def)
  show ?thesis
    using a b c trimHistory_bounds [of "Fin 2" "Fin 5" history3]
      trimHistory_bounds [of "Fin 2" "Fin 3" history3]
    by simp
qed

text \<open>
  C1, as stated, fails: with both bounds \<^verbatim>\<open>NaN\<close> neither loop removes a message, and three
  messages of six code units in all stay as they are.
\<close>

theorem trimHistory_bounds_counterexample:
  "trimHistory NaN NaN history3 = Some history3 \<and>
   length (messages history3) = 3 \<and>
   \<not> js_le (length (messages history3)) NaN \<and>
   sum_list (map (\<lambda>m. length (orEmpty (content m))) (messages history3)) = 6 \<and>
   \<not> js_le (sum_list (map (\<lambda>m. length (orEmpty (content m))) (messages history3))) NaN"
  by (simp add: trimHistory_def trimCount_NaN trimChars_NaN history3_def turn_def orEmpty_def js_def)

text \<open>
  C9. When \<^verbatim>\<open>trimHistory\<close> returns, the messages left are a suffix of the messages before:
  the list before with some number of messages dropped from its front, each message kept
  as it was and in the same order. \<^verbatim>\<open>trimHistory\<close> does return unless the message bound is
  below 0.
\<close>

theorem trimHistory_suffix:
  "(\<not> js_gt 0 maxMessages \<longrightarrow> trimHistory maxMessages maxChars c \<noteq> None) \<and>
   (\<forall>c'. trimHistory maxMessages maxChars c = Some c' \<longrightarrow>
      suffix (messages c') (messages c) \<and>
      (\<exists>k. messages c' = drop k (messages c)))"
proof (intro conjI allI impI)
  assume "\<not> js_gt 0 maxMessages"
  then show "trimHistory maxMessages maxChars c \<noteq> None"
    using trimCount_returns[of maxMessages "messages c"] by (auto simp: trimHistory_def)
next
  fix c' assume h: "trimHistory maxMessages maxChars c = Some c'"
  then obtain r where r: "trimCount maxMessages (messages c) = Some r"
    and c': "messages c' = trimChars maxChars r"
    by (auto simp: trimHistory_def split: option.splits)
  show s: "suffix (messages c') (messages c)"
    using trimCount_sound[OF r] suffix_trimChars[of maxChars r] c' suffix_order.trans by fastforce
  then show "\<exists>k. messages c' = drop k (messages c)"
    by (metis suffix_drop suffix_def append_eq_conv_conj)
qed

theorem trimHistory_suffix_witness:
  "\<not> js_gt 0 (Fin 2) \<and>
   trimHistory (Fin 2) (Fin 3) history3 = Some \<lparr>messages = [turn User ''ccc'']\<rparr> \<and>
   suffix [turn User ''ccc''] (messages history3) \<and>
   (\<exists>k. [turn User ''ccc''] = drop k (messages history3))"
proof -
  have b: "trimHistory (Fin 2) (Fin 3) history3 = Some \<lparr>messages = [turn User ''ccc'']\<rparr>"
    by (simp add: trim_eval)
  show ?thesis
    using b trimHistory_suffix [of "Fin 2" "Fin 3" history3] by simp
qed

section \<open>Properties of the reply chunker\<close>

declare hardSplit.simps [simp del]

subsection \<open>The inner loop\<close>

lemma hardSplit_acc: "hardSplit line i ps = ps @ hardSplit line i []"
proof (induction "length line - i" arbitrary: i ps rule: less_induct)
  case less
  show ?case
  proof (cases "i < length line")
    case True
    let ?x = "slice line i (i + MAX_CHUNK)"
    have d: "length line - (i + MAX_CHUNK) < length line - i"
      using True by (simp add: MAX_CHUNK_def)
    have "hardSplit line i ps = hardSplit line (i + MAX_CHUNK) (ps @ [?x])"
      using True by (subst hardSplit.simps) simp
    also have "\<dots> = (ps @ [?x]) @ hardSplit line (i + MAX_CHUNK) []"
      using less[OF d] .
    also have "\<dots> = ps @ hardSplit line (i + MAX_CHUNK) [?x]"
      using less[OF d, of "[?x]"] by simp
    also have "hardSplit line (i + MAX_CHUNK) [?x] = hardSplit line i []"
      using True by (subst (2) hardSplit.simps) simp
    finally show ?thesis .
  next
    case False
    then show ?thesis by (simp add: hardSplit.simps[of line i])
  qed
qed

lemma hardSplit_more:
  "i < length line \<Longrightarrow>
   hardSplit line i [] = slice line i (i + MAX_CHUNK) # hardSplit line (i + MAX_CHUNK) []"
  using hardSplit_acc[of line "i + MAX_CHUNK" "[slice line i (i + MAX_CHUNK)]"]
  by (subst hardSplit.simps) simp

lemma hardSplit_done: "\<not> i < length line \<Longrightarrow> hardSplit line i [] = []"
  by (subst hardSplit.simps) simp

lemma hardSplit_pieces:
  "p \<in> set (hardSplit line i []) \<Longrightarrow> length p \<le> MAX_CHUNK \<and> p \<noteq> [] \<and> set p \<subseteq> set line"
proof (induction "length line - i" arbitrary: i rule: less_induct)
  case less
  show ?case
  proof (cases "i < length line")
    case True
    have d: "length line - (i + MAX_CHUNK) < length line - i"
      using True by (simp add: MAX_CHUNK_def)
    from less.prems True
    consider "p = slice line i (i + MAX_CHUNK)" | "p \<in> set (hardSplit line (i + MAX_CHUNK) [])"
      by (auto simp: hardSplit_more)
    then show ?thesis
    proof cases
      case 1
      have "set (take MAX_CHUNK (drop i line)) \<subseteq> set line"
        using set_take_subset set_drop_subset by fast
      then show ?thesis using 1 True by (simp add: slice_def MAX_CHUNK_def)
    next
      case 2
      then show ?thesis using less.hyps[OF d] by simp
    qed
  next
    case False
    then show ?thesis using less.prems by (simp add: hardSplit_done)
  qed
qed

lemma hardSplit_nonempty: "line \<noteq> [] \<Longrightarrow> hardSplit line 0 [] \<noteq> []"
  by (simp add: hardSplit_more)

lemma concat_hardSplit: "concat (hardSplit line i []) = drop i line"
proof (induction "length line - i" arbitrary: i rule: less_induct)
  case less
  show ?case
  proof (cases "i < length line")
    case True
    have d: "length line - (i + MAX_CHUNK) < length line - i"
      using True by (simp add: MAX_CHUNK_def)
    have "concat (hardSplit line i []) = take MAX_CHUNK (drop i line) @ drop (i + MAX_CHUNK) line"
      using True less.hyps[OF d] by (simp add: hardSplit_more slice_def)
    also have "\<dots> = drop i line"
      by (metis add.commute append_take_drop_id drop_drop)
    finally show ?thesis .
  next
    case False
    then show ?thesis by (simp add: hardSplit_done)
  qed
qed

text \<open>The inner loop cuts a line into its pieces of \<^verbatim>\<open>MAX\<close> code units.\<close>

declare sized_pieces.simps [simp del]

lemma sized_pieces_Nil: "sized_pieces n [] = []"
  by (subst sized_pieces.simps) simp

lemma sized_pieces_more:
  "0 < n \<Longrightarrow> xs \<noteq> [] \<Longrightarrow> sized_pieces n xs = take n xs # sized_pieces n (drop n xs)"
  by (subst sized_pieces.simps) simp

lemma concat_sized_pieces: "0 < n \<Longrightarrow> concat (sized_pieces n xs) = xs"
proof (induction "length xs" arbitrary: xs rule: less_induct)
  case less
  show ?case
  proof (cases "xs = []")
    case True
    then show ?thesis by (simp add: sized_pieces_Nil)
  next
    case False
    then have "length (drop n xs) < length xs" using less.prems by simp
    then have "concat (sized_pieces n (drop n xs)) = drop n xs"
      using less.prems by (intro less.hyps)
    then show ?thesis using False less.prems by (simp add: sized_pieces_more)
  qed
qed



subsection \<open>Splitting and joining lines\<close>

lemma split_lines_nonempty: "split_lines s \<noteq> []"
  by (induction s) (auto split: list.splits)


lemma split_lines_id: "LF \<notin> set s \<Longrightarrow> split_lines s = [s]"
  by (induction s) auto


lemma split_lines_covers: "c \<in> set s \<Longrightarrow> c \<noteq> LF \<Longrightarrow> \<exists>l\<in>set (split_lines s). c \<in> set l"
proof (induction s)
  case Nil
  then show ?case by simp
next
  case (Cons d ds)
  obtain h t where ht: "split_lines ds = h # t"
    using split_lines_nonempty[of ds] by (cases "split_lines ds") auto
  show ?case
  proof (cases "d = LF")
    case True
    then show ?thesis using Cons by auto
  next
    case False
    show ?thesis
    proof (cases "c = d")
      case True
      then show ?thesis using False ht by simp
    next
      case ne: False
      then have "\<exists>l\<in>set (h # t). c \<in> set l" using Cons ht by simp
      then show ?thesis using False ht by auto
    qed
  qed
qed

lemma split_lines_append:
  "split_lines (a @ LF # b) = split_lines a @ split_lines b"
proof (induction a)
  case Nil
  then show ?case by simp
next
  case (Cons c cs)
  obtain h t where ht: "split_lines cs = h # t"
    using split_lines_nonempty[of cs] by (cases "split_lines cs") auto
  show ?case
  proof (cases "c = LF")
    case True
    then show ?thesis using Cons by simp
  next
    case False
    then show ?thesis using Cons ht by simp
  qed
qed


subsection \<open>Size bound\<close>

lemma within_max_pushBuf: "within_max st \<Longrightarrow> within_max (pushBuf st)"
  by (auto simp: within_max_def pushBuf_def)

lemma within_max_chunkLine: "within_max st \<Longrightarrow> within_max (chunkLine st line)"
proof -
  assume b: "within_max st"
  have p: "within_max (pushBuf st)" using b by (rule within_max_pushBuf)
  have h: "\<forall>q\<in>set (hardSplit line 0 (parts (pushBuf st))). length q \<le> MAX_CHUNK"
    using p hardSplit_pieces[of _ line 0]
    by (subst hardSplit_acc) (auto simp: within_max_def)
  show ?thesis
  proof (cases "length (joined (buf st) line) > MAX_CHUNK")
    case True
    then show ?thesis using p h by (auto simp: chunkLine_def Let_def within_max_def)
  next
    case False
    then show ?thesis using b by (auto simp: chunkLine_def within_max_def)
  qed
qed

lemma within_max_foldl: "within_max st \<Longrightarrow> within_max (foldl chunkLine st ls)"
  by (induction ls arbitrary: st) (simp_all add: within_max_chunkLine)

text \<open>
  C3. Every chunk \<^verbatim>\<open>sendLongReply\<close> builds, for every text, null included, has at most
  \<^verbatim>\<open>MAX\<close> = 1900 code units.
\<close>

theorem chunk_bound: "p \<in> set (sendLongReply_parts text) \<Longrightarrow> length p \<le> 1900"
proof -
  have "within_max \<lparr>parts = [], buf = []\<rparr>" by (simp add: within_max_def)
  then have "within_max (pushBuf (foldl chunkLine \<lparr>parts = [], buf = []\<rparr> ls))" for ls
    by (intro within_max_pushBuf within_max_foldl)
  then show "p \<in> set (sendLongReply_parts text) \<Longrightarrow> length p \<le> 1900"
    by (auto simp: sendLongReply_parts_def Let_def within_max_def MAX_CHUNK_def)
qed

theorem chunk_bound_witness:
  "js ''ab'' \<in> set (sendLongReply_parts (Some (js ''ab''))) \<and> length (js ''ab'') \<le> 1900"
proof -
  have a: "js ''ab'' \<in> set (sendLongReply_parts (Some (js ''ab'')))"
    by (simp add: sendLongReply_parts_def js_def jc_def LF_def chunkLine_def joined_def
        pushBuf_def MAX_CHUNK_def trim_def isSpace_def truthy_def orEmpty_def)
  show ?thesis using a chunk_bound [OF a] by simp
qed

subsection \<open>At least one chunk\<close>

lemma trim_joined_left: "trim b \<noteq> [] \<Longrightarrow> trim (joined b line) \<noteq> []"
  by (auto simp: trim_Nil_iff joined_def)

lemma trim_joined_right: "trim line \<noteq> [] \<Longrightarrow> trim (joined b line) \<noteq> []"
  by (auto simp: trim_Nil_iff joined_def)

lemma pending_pushBuf: "pending st \<Longrightarrow> parts (pushBuf st) \<noteq> []"
  by (auto simp: pending_def pushBuf_def)

lemma pending_chunkLine: "pending st \<or> trim line \<noteq> [] \<Longrightarrow> pending (chunkLine st line)"
proof (cases "length (joined (buf st) line) > MAX_CHUNK")
  case True
  assume a: "pending st \<or> trim line \<noteq> []"
  show ?thesis
  proof (cases "length line > MAX_CHUNK")
    case long: True
    then have "line \<noteq> []" by auto
    then have "hardSplit line 0 (parts (pushBuf st)) \<noteq> []"
      using hardSplit_nonempty[of line] by (subst hardSplit_acc) simp
    then show ?thesis using True long by (simp add: chunkLine_def Let_def pending_def)
  next
    case short: False
    have "parts (pushBuf st) \<noteq> [] \<or> trim line \<noteq> []"
      using a pending_pushBuf by blast
    then show ?thesis using True short by (auto simp: chunkLine_def Let_def pending_def)
  qed
next
  case False
  assume a: "pending st \<or> trim line \<noteq> []"
  then show ?thesis using False trim_joined_left[of "buf st" line] trim_joined_right[of line "buf st"]
    by (auto simp: chunkLine_def pending_def)
qed

lemma pending_foldl:
  "pending st \<or> (\<exists>l\<in>set ls. trim l \<noteq> []) \<Longrightarrow> pending (foldl chunkLine st ls)"
proof (induction ls arbitrary: st)
  case Nil
  then show ?case by simp
next
  case (Cons l ls)
  show ?case
  proof (cases "pending st \<or> trim l \<noteq> []")
    case True
    then have "pending (chunkLine st l)" by (rule pending_chunkLine)
    then show ?thesis using Cons.IH by simp
  next
    case False
    then have "\<exists>l\<in>set ls. trim l \<noteq> []" using Cons.prems by auto
    then show ?thesis using Cons.IH by simp
  qed
qed

lemma nonblank_line:
  assumes "c \<in> set s" "\<not> isSpace c"
  shows "\<exists>l\<in>set (split_lines s). trim l \<noteq> []"
proof -
  have "c \<noteq> LF" using assms isSpace_LF by auto
  then obtain l where "l \<in> set (split_lines s)" "c \<in> set l"
    using assms split_lines_covers by blast
  then show ?thesis using assms by (auto simp: trim_Nil_iff)
qed

lemma placeholder_parts: "\<not> truthy text \<Longrightarrow> sendLongReply_parts text = [js ''(no content)'']"
  by (simp add: sendLongReply_parts_def js_def jc_def LF_def chunkLine_def joined_def pushBuf_def
      MAX_CHUNK_def trim_def isSpace_def)

text \<open>
  C4, as amended. A text that is null or empty gives exactly the one chunk
  \<^verbatim>\<open>(no content)\<close>, and a text with at least one code unit that is not white space gives
  at least one chunk.
\<close>

theorem chunks_nonempty:
  "(\<not> truthy text \<longrightarrow> sendLongReply_parts text = [js ''(no content)'']) \<and>
   (\<forall>s. text = Some s \<and> (\<exists>c\<in>set s. \<not> isSpace c) \<longrightarrow> sendLongReply_parts text \<noteq> [])"
proof (intro conjI allI impI)
  assume "\<not> truthy text"
  then show "sendLongReply_parts text = [js ''(no content)'']" by (rule placeholder_parts)
next
  fix s assume a: "text = Some s \<and> (\<exists>c\<in>set s. \<not> isSpace c)"
  then have t: "truthy text" by (auto simp: truthy_def)
  have "\<exists>l\<in>set (split_lines s). trim l \<noteq> []" using a nonblank_line by blast
  then have "pending (foldl chunkLine \<lparr>parts = [], buf = []\<rparr> (split_lines s))"
    by (intro pending_foldl) simp
  then show "sendLongReply_parts text \<noteq> []"
    using a t pending_pushBuf by (simp add: sendLongReply_parts_def orEmpty_def)
qed

theorem chunks_nonempty_witness:
  "\<not> truthy None \<and> sendLongReply_parts None = [js ''(no content)''] \<and>
   \<not> truthy (Some []) \<and> sendLongReply_parts (Some []) = [js ''(no content)''] \<and>
   (\<exists>c\<in>set (js ''hi''). \<not> isSpace c) \<and> sendLongReply_parts (Some (js ''hi'')) \<noteq> []"
proof -
  have a: "\<not> truthy None" "\<not> truthy (Some [])" by (simp_all add: truthy_def)
  have b: "\<exists>c\<in>set (js ''hi''). \<not> isSpace c" by (simp add: js_def jc_def isSpace_def)
  show ?thesis
    using a b chunks_nonempty [of None] chunks_nonempty [of "Some []"]
      chunks_nonempty [of "Some (js ''hi'')"]
    by blast
qed

text \<open>
  C4, as stated, fails: a text of one space is not falsy, so it is not replaced by the
  placeholder, and \<^verbatim>\<open>pushBuf\<close> drops the buffer that holds it.
\<close>

theorem chunks_empty_counterexample: "sendLongReply_parts (Some (js '' '')) = []"
  by (simp add: sendLongReply_parts_def js_def jc_def LF_def chunkLine_def joined_def pushBuf_def
      MAX_CHUNK_def trim_def isSpace_def truthy_def orEmpty_def)

subsection \<open>Line structure\<close>





















subsection \<open>One long line\<close>

lemma one_line_parts:
  assumes "LF \<notin> set l" "length l > MAX_CHUNK"
  shows "sendLongReply_parts (Some l) = hardSplit l 0 []"
proof -
  have ne: "l \<noteq> []" using assms by auto
  have "foldl chunkLine \<lparr>parts = [], buf = []\<rparr> (split_lines l) = \<lparr>parts = hardSplit l 0 [], buf = []\<rparr>"
    using assms by (simp add: split_lines_id chunkLine_def joined_def pushBuf_def trim_def)
  then show ?thesis using ne
    by (simp add: sendLongReply_parts_def truthy_def orEmpty_def pushBuf_def trim_def)
qed

lemma hardSplit_5000:
  assumes "length l = 5000"
  shows "hardSplit l 0 [] = [take 1900 l, take 1900 (drop 1900 l), drop 3800 l]"
proof -
  have "hardSplit l 0 [] = slice l 0 1900 # hardSplit l 1900 []"
    using assms hardSplit_more[of 0 l] by (simp add: MAX_CHUNK_def)
  also have "hardSplit l 1900 [] = slice l 1900 3800 # hardSplit l 3800 []"
    using assms hardSplit_more[of 1900 l] by (simp add: MAX_CHUNK_def)
  also have "hardSplit l 3800 [] = slice l 3800 5700 # hardSplit l 5700 []"
    using assms hardSplit_more[of 3800 l] by (simp add: MAX_CHUNK_def)
  also have "hardSplit l 5700 [] = []"
    using assms by (simp add: hardSplit_done)
  finally show ?thesis using assms by (simp add: slice_def)
qed

text \<open>
  C5. A text that is one line of 5000 code units (no line feed in it) gives exactly three
  chunks, of 1900, 1900 and 1200 code units: its first 1900 code units, the next 1900 and
  the last 1200, so that the chunks put together are the line.
\<close>

theorem chunks_5000:
  assumes "length l = 5000" "LF \<notin> set l"
  shows "sendLongReply_parts (Some l) = [take 1900 l, take 1900 (drop 1900 l), drop 3800 l] \<and>
         map length (sendLongReply_parts (Some l)) = [1900, 1900, 1200] \<and>
         concat (sendLongReply_parts (Some l)) = l"
proof -
  have p: "sendLongReply_parts (Some l) = [take 1900 l, take 1900 (drop 1900 l), drop 3800 l]"
    using assms one_line_parts[of l] hardSplit_5000[of l] by (simp add: MAX_CHUNK_def)
  have "concat (sendLongReply_parts (Some l)) = l"
    using assms one_line_parts[of l] concat_hardSplit[of l 0] by (simp add: MAX_CHUNK_def)
  then show ?thesis using p assms by simp
qed

theorem chunks_5000_witness:
  "length (replicate 5000 (jc CHR ''a'')) = 5000 \<and> LF \<notin> set (replicate 5000 (jc CHR ''a'')) \<and>
   map length (sendLongReply_parts (Some (replicate 5000 (jc CHR ''a'')))) = [1900, 1900, 1200] \<and>
   concat (sendLongReply_parts (Some (replicate 5000 (jc CHR ''a'')))) = replicate 5000 (jc CHR ''a'')"
proof -
  have a: "length (replicate 5000 (jc CHR ''a'')) = 5000" by simp
  have b: "LF \<notin> set (replicate 5000 (jc CHR ''a''))" by (simp add: LF_def jc_def)
  show ?thesis using a b chunks_5000[OF a b] by blast
qed

lemma a_not_LF: "jc CHR ''a'' \<noteq> LF"
  by (simp add: jc_def LF_def)



text \<open>An empty line after a full buffer is lost.\<close>

lemma chunks_blank_line:
  "sendLongReply_parts (Some (replicate 1900 (jc CHR ''a'') @ [LF, LF, jc CHR ''b''])) =
     [replicate 1900 (jc CHR ''a''), [jc CHR ''b'']]"
proof -
  let ?x = "replicate 1900 (jc CHR ''a'')"
  have n: "LF \<notin> set ?x" using a_not_LF by simp
  have s: "split_lines (?x @ LF # [LF, jc CHR ''b'']) = [?x, [], [jc CHR ''b'']]"
    using n by (subst split_lines_append) (simp add: split_lines_id jc_def LF_def)
  have t: "trim ?x \<noteq> []" by (simp add: trim_Nil_iff isSpace_def jc_def)
  have tb: "trim [jc CHR ''b''] \<noteq> []" by (simp add: trim_Nil_iff isSpace_def jc_def)
  show ?thesis using s t tb
    by (simp add: sendLongReply_parts_def truthy_def orEmpty_def chunkLine_def joined_def pushBuf_def MAX_CHUNK_def)
qed

section \<open>Properties of the system prompt\<close>

lemma trim_SYSTEM_PROMPT: "trim SYSTEM_PROMPT = SYSTEM_PROMPT"
  by (simp add: trim_def SYSTEM_PROMPT_def js_def jc_def isSpace_def)

lemma SYSTEM_PROMPT_nonblank: "trim SYSTEM_PROMPT \<noteq> []"
  by (simp add: trim_Nil_iff SYSTEM_PROMPT_def js_def jc_def isSpace_def)

text \<open>
  C10. Whatever \<^verbatim>\<open>state.globalSystemPrompt\<close> holds, null and blank strings included,
  \<^verbatim>\<open>getSystemPrompt\<close> returns its trimmed value when that is not empty and the built-in
  prompt otherwise; what it returns is not empty and not only white space. The same holds
  after the \<^verbatim>\<open>systemprompt\<close> command, whatever prompt it is given.
\<close>

theorem getSystemPrompt_nonblank:
  "getSystemPrompt st =
     (if trim (orEmpty (globalSystemPrompt st)) \<noteq> [] then trim (orEmpty (globalSystemPrompt st))
      else SYSTEM_PROMPT) \<and>
   getSystemPrompt st \<noteq> [] \<and>
   (\<exists>c\<in>set (getSystemPrompt st). \<not> isSpace c) \<and>
   getSystemPrompt (systemprompt_command prompt resetContext st) =
     (if trim prompt \<noteq> [] then trim prompt else SYSTEM_PROMPT)"
proof -
  let ?g = "trim (orEmpty (globalSystemPrompt st))"
  have a: "getSystemPrompt st = (if ?g \<noteq> [] then ?g else SYSTEM_PROMPT)"
    by (simp add: getSystemPrompt_def orEmpty_js_or)
  have "trim (getSystemPrompt st) \<noteq> []"
    using a SYSTEM_PROMPT_nonblank by (simp add: trim_idem)
  then have b: "\<exists>c\<in>set (getSystemPrompt st). \<not> isSpace c" by (simp add: trim_Nil_iff)
  then have c: "getSystemPrompt st \<noteq> []" by auto
  have "globalSystemPrompt (systemprompt_command prompt resetContext st) =
      Some (if trim prompt \<noteq> [] then trim prompt else SYSTEM_PROMPT)"
    by (simp add: systemprompt_command_def orEmpty_Some Let_def)
  then have d: "getSystemPrompt (systemprompt_command prompt resetContext st) =
      (if trim prompt \<noteq> [] then trim prompt else SYSTEM_PROMPT)"
    using SYSTEM_PROMPT_nonblank
    by (simp add: getSystemPrompt_def orEmpty_js_or orEmpty_Some trim_idem trim_SYSTEM_PROMPT)
  show ?thesis using a b c d by blast
qed

theorem getSystemPrompt_nonblank_witness:
  "getSystemPrompt \<lparr>globalSystemPrompt = Some (js ''  ''), conversations = Map.empty\<rparr> = SYSTEM_PROMPT \<and>
   getSystemPrompt \<lparr>globalSystemPrompt = None, conversations = Map.empty\<rparr> = SYSTEM_PROMPT \<and>
   getSystemPrompt \<lparr>globalSystemPrompt = Some (js '' Be brief. ''), conversations = Map.empty\<rparr> = js ''Be brief.''"
  using getSystemPrompt_nonblank [of "\<lparr>globalSystemPrompt = Some (js ''  ''), conversations = Map.empty\<rparr>"]
    getSystemPrompt_nonblank [of "\<lparr>globalSystemPrompt = None, conversations = Map.empty\<rparr>"]
    getSystemPrompt_nonblank [of "\<lparr>globalSystemPrompt = Some (js '' Be brief. ''), conversations = Map.empty\<rparr>"]
  by (simp add: orEmpty_def trim_def js_def jc_def isSpace_def)

section \<open>Properties of the endpoint URL\<close>

lemma rmatch_Star_Eoi:
  "rmatch [Star P, Eoi] p s = (if \<forall>c\<in>set s. P c then Some [] else None)"
  by (induction s arbitrary: p) simp_all

lemma rmatch_trailing_slashes:
  "rmatch re_trailing_slashes p s =
     (if s \<noteq> [] \<and> (\<forall>c\<in>set s. c = jc CHR ''/'') then Some [] else None)"
  by (cases s) (auto simp: re_trailing_slashes_def rmatch_Star_Eoi)

lemma stripTrailingSlashes_Cons:
  "stripTrailingSlashes (c # cs) =
     (if \<forall>d\<in>set (c # cs). d = jc CHR ''/'' then [] else c # stripTrailingSlashes cs)"
  by (auto simp: stripTrailingSlashes_def dropWhile_append dropWhile_eq_Nil_conv)

lemma replaceFirst_trailing_slashes:
  "replaceFirst re_trailing_slashes [] p s = stripTrailingSlashes s"
proof (induction s arbitrary: p)
  case Nil
  then show ?case by (simp add: rmatch_trailing_slashes stripTrailingSlashes_def)
next
  case (Cons c cs)
  then show ?case
    by (simp only: replaceFirst.simps rmatch_trailing_slashes stripTrailingSlashes_Cons) auto
qed

lemma stripTrailingSlashes_idem:
  "stripTrailingSlashes (stripTrailingSlashes s) = stripTrailingSlashes s"
proof -
  let ?P = "\<lambda>c. c = jc CHR ''/''"
  have "dropWhile ?P (dropWhile ?P (rev s)) = dropWhile ?P (rev s)"
    by (rule dropWhile_idem)
  then show ?thesis by (simp add: stripTrailingSlashes_def)
qed

lemma OPENAI_BASE_URL_eq: "OPENAI_BASE_URL e = stripTrailingSlashes (baseUrl e)"
  by (simp add: OPENAI_BASE_URL_def baseUrl_def replaceFirst_trailing_slashes js_or_def orEmpty_Some)

lemmas url_eval = env_base_def env_override_def baseUrl_def stripTrailingSlashes_def endsWith_def truthy_def
  orEmpty_def js_def jc_def isSpace_def trim_def

text \<open>
  C6, as amended. A non-empty \<^verbatim>\<open>OPENAI_API_URL\<close> is returned trimmed of white space at both
  ends, so unchanged when it has none there. Otherwise the base URL with the slashes at its
  end stripped gets \<^verbatim>\<open>/chat/completions\<close> added when it ends in \<^verbatim>\<open>/v1\<close> and
  \<^verbatim>\<open>/v1/chat/completions\<close> when it does not; so for the two bases of the claim.
\<close>

theorem buildChatCompletionsUrl_resolution:
  "(truthy (env_OPENAI_API_URL e) \<longrightarrow>
      buildChatCompletionsUrl e = trim (orEmpty (env_OPENAI_API_URL e))) \<and>
   (\<forall>u. env_OPENAI_API_URL e = Some u \<and> u \<noteq> [] \<and> \<not> isSpace (hd u) \<and> \<not> isSpace (last u) \<longrightarrow>
      buildChatCompletionsUrl e = u) \<and>
   (\<not> truthy (env_OPENAI_API_URL e) \<longrightarrow>
      buildChatCompletionsUrl e =
        (if endsWith (stripTrailingSlashes (baseUrl e)) (js ''/v1'')
         then stripTrailingSlashes (baseUrl e) @ js ''/chat/completions''
         else stripTrailingSlashes (baseUrl e) @ js ''/v1/chat/completions'')) \<and>
   buildChatCompletionsUrl (env_base ''https://api.openai.com/v1'') =
     js ''https://api.openai.com/v1/chat/completions'' \<and>
   buildChatCompletionsUrl (env_base ''https://host/openai'') =
     js ''https://host/openai/v1/chat/completions''"
proof (intro conjI allI impI)
  assume "truthy (env_OPENAI_API_URL e)"
  then show "buildChatCompletionsUrl e = trim (orEmpty (env_OPENAI_API_URL e))"
    by (simp add: buildChatCompletionsUrl_def OPENAI_API_URL_def)
next
  fix u
  assume a: "env_OPENAI_API_URL e = Some u \<and> u \<noteq> [] \<and> \<not> isSpace (hd u) \<and> \<not> isSpace (last u)"
  then have "trim u = u" by (intro trim_fixed) simp
  then show "buildChatCompletionsUrl e = u"
    using a by (simp add: buildChatCompletionsUrl_def OPENAI_API_URL_def truthy_def orEmpty_Some)
next
  assume "\<not> truthy (env_OPENAI_API_URL e)"
  then show "buildChatCompletionsUrl e =
        (if endsWith (stripTrailingSlashes (baseUrl e)) (js ''/v1'')
         then stripTrailingSlashes (baseUrl e) @ js ''/chat/completions''
         else stripTrailingSlashes (baseUrl e) @ js ''/v1/chat/completions'')"
    by (simp add: buildChatCompletionsUrl_def OPENAI_API_URL_def OPENAI_BASE_URL_eq
        replaceFirst_trailing_slashes stripTrailingSlashes_idem Let_def)
next
  show "buildChatCompletionsUrl (env_base ''https://api.openai.com/v1'') =
      js ''https://api.openai.com/v1/chat/completions''"
    by (simp add: buildChatCompletionsUrl_def OPENAI_API_URL_def OPENAI_BASE_URL_def
        re_trailing_slashes_def js_or_def url_eval)
next
  show "buildChatCompletionsUrl (env_base ''https://host/openai'') =
      js ''https://host/openai/v1/chat/completions''"
    by (simp add: buildChatCompletionsUrl_def OPENAI_API_URL_def OPENAI_BASE_URL_def
        re_trailing_slashes_def js_or_def url_eval)
qed

theorem buildChatCompletionsUrl_resolution_witness:
  "buildChatCompletionsUrl (env_base ''https://api.openai.com/v1'') = js ''https://api.openai.com/v1/chat/completions'' \<and>
   buildChatCompletionsUrl (env_base ''https://host/openai'') = js ''https://host/openai/v1/chat/completions'' \<and>
   buildChatCompletionsUrl (env_base ''https://host/v1//'') = js ''https://host/v1/chat/completions'' \<and>
   buildChatCompletionsUrl (env_override ''https://openrouter.ai/api/v1/chat/completions'') =
     js ''https://openrouter.ai/api/v1/chat/completions''"
  using buildChatCompletionsUrl_resolution [of "env_base ''https://api.openai.com/v1''"]
    buildChatCompletionsUrl_resolution [of "env_base ''https://host/openai''"]
    buildChatCompletionsUrl_resolution [of "env_base ''https://host/v1//''"]
    buildChatCompletionsUrl_resolution [of "env_override ''https://openrouter.ai/api/v1/chat/completions''"]
  by (simp add: url_eval)

text \<open>
  C6, as stated, fails: an override that starts with a space is not used as it is.
\<close>

theorem buildChatCompletionsUrl_counterexample:
  "buildChatCompletionsUrl (env_override '' https://host/v1/chat/completions'') =
     js ''https://host/v1/chat/completions'' \<and>
   buildChatCompletionsUrl (env_override '' https://host/v1/chat/completions'') \<noteq>
     js '' https://host/v1/chat/completions''"
  by (simp add: buildChatCompletionsUrl_def OPENAI_API_URL_def url_eval)

section \<open>Properties of the completion response\<close>

lemma stripThinkBlocks_Some:
  "\<exists>t. stripThinkBlocks (Some s) = Some t \<and> trim t = t"
  by (auto simp: stripThinkBlocks_def Let_def trim_idem trim_Nil)

lemma rawContent_Some:
  "rawContent data =
     Some (case msg_content (firstMessage data) of
             Some c \<Rightarrow> c
           | None \<Rightarrow> (case firstChoice data of None \<Rightarrow> [] | Some c \<Rightarrow> orEmpty (choice_text c)))"
  by (auto simp: rawContent_def nullish_def orEmpty_def split: option.splits)

text \<open>
  C7. For every parsed body, the text returned is the sanitized primary content
  (\<^verbatim>\<open>message.content\<close>, or \<^verbatim>\<open>text\<close> when that is absent, or the empty string) when that is
  not empty, and the sanitized \<^verbatim>\<open>reasoning_content\<close> (the empty string when absent)
  otherwise. It is a string, and trimming it changes nothing.
\<close>

theorem openAiChatCompletions_text_fallback:
  "\<exists>primary reasoning.
     rawContent data =
       Some (case msg_content (firstMessage data) of
               Some c \<Rightarrow> c
             | None \<Rightarrow> (case firstChoice data of None \<Rightarrow> [] | Some c \<Rightarrow> orEmpty (choice_text c))) \<and>
     stripThinkBlocks (rawContent data) = Some primary \<and>
     stripThinkBlocks (Some (orEmpty (msg_reasoning_content (firstMessage data)))) = Some reasoning \<and>
     openAiChatCompletions_text data = (if primary \<noteq> [] then primary else reasoning) \<and>
     trim (openAiChatCompletions_text data) = openAiChatCompletions_text data"
proof -
  obtain raw where raw: "rawContent data = Some raw" using rawContent_Some by blast
  obtain p where p: "stripThinkBlocks (Some raw) = Some p" "trim p = p"
    using stripThinkBlocks_Some by blast
  let ?rc = "msg_reasoning_content (firstMessage data)"
  obtain r where r: "stripThinkBlocks (Some (orEmpty ?rc)) = Some r" "trim r = r"
    using stripThinkBlocks_Some by blast
  have o: "js_or ?rc (Some []) = Some (orEmpty ?rc)"
    by (cases ?rc) (auto simp: js_or_def truthy_def orEmpty_def)
  have t: "openAiChatCompletions_text data = (if p \<noteq> [] then p else r)"
    using raw p r o
    by (simp add: openAiChatCompletions_text_def Let_def js_or_def truthy_def orEmpty_Some trim_Nil)
  then have "trim (openAiChatCompletions_text data) = openAiChatCompletions_text data"
    using p r by simp
  then show ?thesis using raw p r t rawContent_Some[of data] by auto
qed

theorem openAiChatCompletions_text_fallback_witness:
  "openAiChatCompletions_text (reply_of (Some ''<think>x</think>Hi there'') None None) = js ''Hi there'' \<and>
   openAiChatCompletions_text (reply_of (Some ''<think>hm</think>'') (Some ''It is 4. '') None) = js ''It is 4.'' \<and>
   openAiChatCompletions_text (reply_of None None (Some '' legacy'')) = js ''legacy'' \<and>
   openAiChatCompletions_text \<lparr>choices = None\<rparr> = []"
proof -
  have a: "openAiChatCompletions_text (reply_of (Some ''<think>x</think>Hi there'') None None) = js ''Hi there''"
    by (simp add: openAiChatCompletions_text_def reply_of_def firstMessage_def firstChoice_def
        rawContent_def nullish_def js_or_def truthy_def orEmpty_def strip_eval)
  have b: "openAiChatCompletions_text (reply_of (Some ''<think>hm</think>'') (Some ''It is 4. '') None) = js ''It is 4.''"
    by (simp add: openAiChatCompletions_text_def reply_of_def firstMessage_def firstChoice_def
        rawContent_def nullish_def js_or_def truthy_def orEmpty_def strip_eval)
  have c: "openAiChatCompletions_text (reply_of None None (Some '' legacy'')) = js ''legacy''"
    by (simp add: openAiChatCompletions_text_def reply_of_def firstMessage_def firstChoice_def
        rawContent_def nullish_def js_or_def truthy_def orEmpty_def strip_eval)
  have d: "openAiChatCompletions_text \<lparr>choices = None\<rparr> = []"
    by (simp add: openAiChatCompletions_text_def reply_of_def firstMessage_def firstChoice_def
        rawContent_def nullish_def js_or_def truthy_def orEmpty_def strip_eval)
  show ?thesis
    using a b c d openAiChatCompletions_text_fallback [of "reply_of (Some ''<think>x</think>Hi there'') None None"]
    by simp
qed

end
